theory Spec2Isabelle
  imports Main
begin

section \<open>Characters and regular-expression matching\<close>

text \<open>
  JavaScript strings are sequences of code units; here a string is a \<open>char list\<close>, one
  \<open>char\<close> per code unit, which covers the code units up to 255. The class \<open>\s\<close> of
  the regular expressions then consists of tab, line feed, vertical tab, form feed,
  carriage return, space and the no-break space.
\<close>

abbreviation bslash :: char where
  "bslash \<equiv> CHR 0x5C"

definition isSpace :: "char \<Rightarrow> bool" where
  "isSpace c = (c \<in> set [CHR 0x09, CHR 0x0A, CHR 0x0B, CHR 0x0C, CHR 0x0D, CHR 0x20, CHR 0xA0])"

text \<open>The class \<open>[^\s\[\]]\<close>.\<close>

definition urlChar :: "char \<Rightarrow> bool" where
  "urlChar c = (\<not> isSpace c \<and> c \<noteq> CHR ''['' \<and> c \<noteq> CHR '']'')"

text \<open>
  Flag \<open>i\<close>: two code units match when their canonical (upper-case) forms agree. The
  patterns only hold ASCII characters, and no code unit outside ASCII is canonicalised
  into ASCII, so the upper-casing of the ASCII letters is all that matters.
\<close>

definition canonicalize :: "char \<Rightarrow> char" where
  "canonicalize c =
     (case map_of (zip ''abcdefghijklmnopqrstuvwxyz'' ''ABCDEFGHIJKLMNOPQRSTUVWXYZ'') c of
        Some u \<Rightarrow> u
      | None \<Rightarrow> c)"

definition ciEq :: "char \<Rightarrow> char \<Rightarrow> bool" where
  "ciEq p c = (canonicalize c = canonicalize p)"

text \<open>\<open>prefixCI p s\<close>: the text \<open>s\<close> begins with \<open>p\<close>, letter case ignored.\<close>

definition prefixCI :: "string \<Rightarrow> string \<Rightarrow> bool" where
  "prefixCI p s = (length p \<le> length s \<and> list_all2 ciEq p (take (length p) s))"

text \<open>
  \<open>urlStart s\<close>: the text \<open>s\<close> begins with \<open>https://\<close>, \<open>http://\<close> or \<open>www.\<close>, letter case
  ignored, and at least one character that is neither white space nor a bracket follows.
\<close>

definition urlStart :: "string \<Rightarrow> bool" where
  "urlStart s =
     list_ex (\<lambda>p. prefixCI p s \<and> (case drop (length p) s of [] \<Rightarrow> False | c # _ \<Rightarrow> urlChar c))
       [''https://'', ''http://'', ''www.'']"

text \<open>\<open>follows n s\<close>: the text \<open>s\<close> has a character of the class \<open>[^\s\[\]]\<close> at index \<open>n\<close>.\<close>

definition follows :: "nat \<Rightarrow> string \<Rightarrow> bool" where
  "follows n s = (case drop n s of [] \<Rightarrow> False | c # _ \<Rightarrow> urlChar c)"

text \<open>
  A backtracking matcher maps the input to the list of all ways of matching a prefix of
  it, each given by the unconsumed rest, in the order in which the regular-expression
  engine tries them; the head of the list is the match the engine reports.
\<close>

type_synonym matcher = "string \<Rightarrow> string list"

definition chr_m :: "(char \<Rightarrow> bool) \<Rightarrow> matcher" where
  "chr_m p s = (case s of [] \<Rightarrow> [] | c # r \<Rightarrow> if p c then [r] else [])"

definition seq_m :: "matcher \<Rightarrow> matcher \<Rightarrow> matcher" where
  "seq_m a b s = concat (map b (a s))"

definition alt_m :: "matcher \<Rightarrow> matcher \<Rightarrow> matcher" where
  "alt_m a b s = a s @ b s"

text \<open>The greedy \<open>?\<close>: first with the optional part, then without.\<close>

definition opt_m :: "matcher \<Rightarrow> matcher" where
  "opt_m a s = a s @ [s]"

text \<open>The greedy \<open>+\<close> on a character class: the longest run first.\<close>

fun plus_m :: "(char \<Rightarrow> bool) \<Rightarrow> matcher" where
  "plus_m p [] = []"
| "plus_m p (c # r) = (if p c then plus_m p r @ [r] else [])"

text \<open>A literal, compared case-insensitively.\<close>

fun lit_m :: "string \<Rightarrow> matcher" where
  "lit_m [] s = [s]"
| "lit_m (p # ps) s = seq_m (chr_m (ciEq p)) (lit_m ps) s"

text \<open>\<open>https?:\/\/\<close> with flag \<open>i\<close>.\<close>

definition schemeRe :: matcher where
  "schemeRe = seq_m (lit_m ''http'') (seq_m (opt_m (lit_m ''s'')) (lit_m ''://''))"

text \<open>\<open>/(?:https?:\/\/|www\.)[^\s\[\]]+/gi\<close>, the \<open>urlRegex\<close> of \<open>parseUrls\<close>.\<close>

definition urlRegex :: matcher where
  "urlRegex = seq_m (alt_m schemeRe (lit_m ''www.'')) (plus_m urlChar)"

text \<open>
  \<open>exec\<close> of a global regular expression on the part of the input from \<open>lastIndex\<close>
  on: the start positions are tried from left to right, and the first position with a
  match gives the matched text; the rest after the match is where \<open>lastIndex\<close> then
  points. \<open>None\<close> is the \<open>null\<close> of a failed search.
\<close>

fun regexExec :: "matcher \<Rightarrow> string \<Rightarrow> (string \<times> string) option" where
  "regexExec re s =
     (case re s of
        r # _ \<Rightarrow> Some (take (length s - length r) s, r)
      | [] \<Rightarrow> (case s of [] \<Rightarrow> None | _ # t \<Rightarrow> regexExec re t))"

text \<open>
  The loop \<open>while ((match = urlRegex.exec(buffer)) !== null) { ... }\<close>, with the loop
  body as a function of the matched text and of the variables the body assigns. Every
  match of \<open>urlRegex\<close> is non-empty, so each search starts on a shorter rest.
\<close>

function execLoop :: "(string \<Rightarrow> 'a \<Rightarrow> 'a) \<Rightarrow> 'a \<Rightarrow> string \<Rightarrow> 'a" where
  "execLoop body acc s =
     (case regexExec urlRegex s of
        None \<Rightarrow> acc
      | Some (m, rest) \<Rightarrow> execLoop body (body m acc) rest)"
  by pat_completeness auto
termination
proof (relation "measure (\<lambda>(body, acc, s). length s)")
  show "wf (measure (\<lambda>(body, acc, s). length s))"
    by simp
next
  fix body :: "string \<Rightarrow> 'a \<Rightarrow> 'a" and acc :: 'a and s x2 m rest
  assume ex: "regexExec urlRegex s = Some x2" and x2: "(m, rest) = x2"
  have chr: "\<And>p t r. r \<in> set (chr_m p t) \<Longrightarrow> length r \<le> length t"
    by (auto simp: chr_m_def split: list.splits if_splits)
  have lit: "\<And>t r. r \<in> set (lit_m ps t) \<Longrightarrow> length r \<le> length t" for ps
  proof (induction ps)
    case Nil
    then show ?case by simp
  next
    case (Cons a ps)
    from Cons.prems obtain u where "u \<in> set (chr_m (ciEq a) t)" and "r \<in> set (lit_m ps u)"
      by (auto simp: seq_m_def)
    with Cons.IH [of r u] chr [of u "ciEq a" t] show ?case by simp
  qed
  have plus: "\<And>r. r \<in> set (plus_m p t) \<Longrightarrow> length r < length t" for p t
  proof (induction t)
    case Nil
    then show ?case by simp
  next
    case (Cons c t)
    then show ?case by (fastforce split: if_splits)
  qed
  have sch: "\<And>t r. r \<in> set (schemeRe t) \<Longrightarrow> length r \<le> length t"
  proof -
    fix t r
    assume "r \<in> set (schemeRe t)"
    then obtain u v where u: "u \<in> set (lit_m ''http'' t)"
      and v: "v \<in> set (opt_m (lit_m ''s'') u)" and r: "r \<in> set (lit_m ''://'' v)"
      unfolding schemeRe_def seq_m_def by auto
    from v have "length v \<le> length u"
      using lit [of v "''s''" u] by (auto simp: opt_m_def simp del: lit_m.simps)
    with lit [OF u] lit [OF r] show "length r \<le> length t" by simp
  qed
  have url: "\<And>t r. r \<in> set (urlRegex t) \<Longrightarrow> length r < length t"
  proof -
    fix t r
    assume "r \<in> set (urlRegex t)"
    then obtain u where u: "u \<in> set (schemeRe t) \<or> u \<in> set (lit_m ''www.'' t)"
      and r: "r \<in> set (plus_m urlChar u)"
      unfolding urlRegex_def seq_m_def alt_m_def by auto
    from u sch [of u t] lit [of u "''www.''" t] have "length u \<le> length t" by blast
    with plus [OF r] show "length r < length t" by simp
  qed
  have "regexExec urlRegex t = Some (m, rest) \<Longrightarrow> length rest < length t" for t
  proof (induction t)
    case Nil
    then show ?case
      using url [of _ "[]"] by (cases "urlRegex []") (auto simp: regexExec.simps [of _ "[]"])
  next
    case (Cons c t)
    show ?case
    proof (cases "urlRegex (c # t)")
      case Nil
      with Cons show ?thesis by (simp add: regexExec.simps [of _ "c # t"])
    next
      case (Cons r rs)
      with Cons.prems have "rest = r" by (simp add: regexExec.simps [of _ "c # t"])
      with url [of r "c # t"] Cons show ?thesis by simp
    qed
  qed
  with ex x2 show "((body, body m acc, rest), (body, acc, s)) \<in> measure (\<lambda>(body, acc, s). length s)"
    by simp
qed

declare regexExec.simps [simp del]
declare execLoop.simps [simp del]

text \<open>The URL-like tokens of a text, in document order: all the matches of \<open>urlRegex\<close>.\<close>

definition tokens :: "string \<Rightarrow> string list" where
  "tokens s = execLoop (\<lambda>m acc. acc @ [m]) [] s"

section \<open>The bracket scanner \<open>parseUrls\<close>\<close>

text \<open>
  The search for the last URL of a closed group: \<open>last\<close> starts as \<open>null\<close>, the search
  starts at \<open>lastIndex = 0\<close>, and the loop body is \<open>last = match[0]\<close>.
\<close>

definition lastUrl :: "string \<Rightarrow> string option" where
  "lastUrl buffer = execLoop (\<lambda>m lastMatch. Some m) None buffer"

text \<open>The variables of \<open>parseUrls\<close>; \<open>lastChar\<close> is the empty string before the first character.\<close>

record pstate =
  results :: "string list"
  depth :: nat
  buffer :: string
  lastChar :: string

definition initState :: pstate where
  "initState = \<lparr>results = [], depth = 0, buffer = [], lastChar = []\<rparr>"

text \<open>\<open>if (last) results.push(last)\<close>: \<open>null\<close> and the empty string are falsy.\<close>

definition pushLast :: "string option \<Rightarrow> string list \<Rightarrow> string list" where
  "pushLast lastMatch rs = (case lastMatch of None \<Rightarrow> rs | Some l \<Rightarrow> if l \<noteq> [] then rs @ [l] else rs)"

text \<open>One iteration of the loop over the characters of the text.\<close>

definition parseStep :: "pstate \<Rightarrow> char \<Rightarrow> pstate" where
  "parseStep st ch =
     (let prev = lastChar st;
          isEscapedBracket = ((ch = CHR ''['' \<or> ch = CHR '']'') \<and> prev = [bslash]);
          st' =
            (if ch = CHR ''['' \<and> \<not> isEscapedBracket then
               (let d = depth st + 1
                in st\<lparr>depth := d, buffer := (if d = 1 then [] else buffer st)\<rparr>)
             else if ch = CHR '']'' \<and> \<not> isEscapedBracket then
               (if depth st > 0 then
                  (let d = depth st - 1
                   in if d = 0
                      then st\<lparr>depth := d, results := pushLast (lastUrl (buffer st)) (results st)\<rparr>
                      else st\<lparr>depth := d\<rparr>)
                else st)
             else
               (if depth st \<ge> 1 then
                  (if isEscapedBracket then st\<lparr>buffer := buffer st @ [ch]\<rparr>
                   else if ch \<noteq> CHR ''['' \<and> ch \<noteq> CHR '']'' then st\<lparr>buffer := buffer st @ [ch]\<rparr>
                   else st)
                else st))
      in st'\<lparr>lastChar := [ch]\<rparr>)"

definition scan :: "pstate \<Rightarrow> string \<Rightarrow> pstate" where
  "scan st text = foldl parseStep st text"

definition parseUrls :: "string \<Rightarrow> string list" where
  "parseUrls text = results (scan initState text)"

subsection \<open>Texts with balanced brackets\<close>

text \<open>
  Texts with balanced brackets, as the specification describes them: a text is a sequence
  of items, an item being a single character or a bracket group around a sequence of
  items. \<open>render\<close> writes an item out, \<open>flatten\<close> is the text of an item without the
  brackets of the groups in it.
\<close>

datatype item = Chr char | Grp "item list"

fun render :: "item \<Rightarrow> string" where
  "render (Chr c) = [c]"
| "render (Grp body) = ''['' @ concat (map render body) @ '']''"

fun flatten :: "item \<Rightarrow> string" where
  "flatten (Chr c) = [c]"
| "flatten (Grp body) = concat (map flatten body)"

text \<open>The brackets of a rendered text are those of its groups: no \<open>Chr\<close> is a bracket.\<close>

fun plainChars :: "item \<Rightarrow> bool" where
  "plainChars (Chr c) = (c \<noteq> CHR ''['' \<and> c \<noteq> CHR '']'')"
| "plainChars (Grp body) = list_all plainChars body"

text \<open>
  No bracket of the text comes directly after a backslash, whatever stands before the
  backslash: every bracket of the text is structural for \<open>parseUrls\<close>.
\<close>

fun noBracketAfterBackslash :: "string \<Rightarrow> bool" where
  "noBracketAfterBackslash (a # b # r) =
     (\<not> (a = bslash \<and> (b = CHR ''['' \<or> b = CHR '']'')) \<and> noBracketAfterBackslash (b # r))"
| "noBracketAfterBackslash [a] = True"
| "noBracketAfterBackslash [] = True"

definition renderAll :: "item list \<Rightarrow> string" where
  "renderAll its = concat (map render its)"

definition flattenAll :: "item list \<Rightarrow> string" where
  "flattenAll its = concat (map flatten its)"

text \<open>The flattened texts of the outermost groups of a text, in document order.\<close>

fun outerGroups :: "item list \<Rightarrow> string list" where
  "outerGroups [] = []"
| "outerGroups (Chr c # its) = outerGroups its"
| "outerGroups (Grp body # its) = concat (map flatten body) # outerGroups its"

subsection \<open>Tokens and escapes in the words of the specification\<close>

text \<open>
  The URL-like tokens of a text in document order, as the specification describes them,
  without the regular expression: a token begins at the first position where
  \<open>http://\<close>, \<open>https://\<close> or \<open>www.\<close> stands, letter case ignored, with a character after
  it that is neither white space nor a bracket; the token is the longest run of such
  characters from that position; the search for the next token goes on after the run.
\<close>

function urlTokens :: "string \<Rightarrow> string list" where
  "urlTokens [] = []"
| "urlTokens (c # s) =
     (if urlStart (c # s)
      then takeWhile urlChar (c # s) # urlTokens (dropWhile urlChar (c # s))
      else urlTokens s)"
  by pat_completeness auto

termination
proof (relation "measure length")
  show "wf (measure length)" by simp
next
  fix c :: char and s :: string
  assume u: "urlStart (c # s)"
  have "c \<in> set ''hHwW''"
    using u by (auto simp: urlStart_def prefixCI_def ciEq_def canonicalize_def split: if_splits)
  then have "urlChar c" by (auto simp: urlChar_def isSpace_def)
  then have "dropWhile urlChar (c # s) = dropWhile urlChar s" by simp
  then show "(dropWhile urlChar (c # s), c # s) \<in> measure length"
    by (simp add: length_dropWhile_le less_Suc_eq_le)
next
  fix c :: char and s :: string
  show "(s, c # s) \<in> measure length" by simp
qed

declare urlTokens.simps [simp del]

text \<open>
  The brackets of a text are non-escaped, by the rule of the specification, when none
  of them comes directly after an unescaped backslash. A backslash escapes the character
  after it, so that of two backslashes in a row the second is escaped, and a bracket
  after the two is not.
\<close>

fun nonEscapedBrackets :: "string \<Rightarrow> bool" where
  "nonEscapedBrackets (a # b # r) =
     (if a = bslash then b \<noteq> CHR ''['' \<and> b \<noteq> CHR '']'' \<and> nonEscapedBrackets r
      else nonEscapedBrackets (b # r))"
| "nonEscapedBrackets [a] = True"
| "nonEscapedBrackets [] = True"

subsection \<open>What a group emits\<close>

text \<open>The last match of the URL pattern in a buffer, if there is one.\<close>

definition emission :: "string \<Rightarrow> string list" where
  "emission b = (if tokens b = [] then [] else [last (tokens b)])"

text \<open>
  The value of \<open>lastChar\<close> after the scan of the text \<open>t\<close>, when it was \<open>l\<close> before.
\<close>

definition lastOf :: "string \<Rightarrow> string \<Rightarrow> string" where
  "lastOf l t = (if t = [] then l else [last t])"

text \<open>
  The scan of an item inside a group, when none of its brackets comes after a backslash:
  the flattened text of the item is appended to the buffer, nothing else changes.
\<close>

definition inGroup :: "item \<Rightarrow> bool" where
  "inGroup it = (\<forall>st. depth st \<ge> 1 \<longrightarrow> plainChars it \<longrightarrow> noBracketAfterBackslash (lastChar st @ render it) \<longrightarrow>
     scan st (render it) = st\<lparr>buffer := buffer st @ flatten it, lastChar := lastOf (lastChar st) (render it)\<rparr>)"

section \<open>The helper \<open>addProtocol\<close>\<close>

text \<open>\<open>/^https?:\/\//i.test(url)\<close>: the pattern is anchored at the start of the input.\<close>

definition hasProtocol :: "string \<Rightarrow> bool" where
  "hasProtocol url = (schemeRe url \<noteq> [])"

definition addProtocol :: "string \<Rightarrow> string" where
  "addProtocol url = (if \<not> hasProtocol url then ''https://'' @ url else url)"

section \<open>Deduplication\<close>

text \<open>
  The test on the set \<open>seen\<close> that both modes make for each URL:
  \<open>if (seen.has(u)) return false; seen.add(u); return true;\<close>
\<close>

definition admit :: "string set \<Rightarrow> string \<Rightarrow> bool \<times> string set" where
  "admit seen u = (if u \<in> seen then (False, seen) else (True, insert u seen))"

text \<open>
  A list without the repetitions of its elements, each element at the place of its first
  occurrence.
\<close>

fun firstOccurrences :: "'a list \<Rightarrow> 'a list" where
  "firstOccurrences [] = []"
| "firstOccurrences (x # xs) = x # firstOccurrences (removeAll x xs)"

text \<open>\<open>urls.filter(...)\<close> of the file mode, with the set the callback updates.\<close>

fun uniqueUrls :: "string set \<Rightarrow> string list \<Rightarrow> string list \<times> string set" where
  "uniqueUrls seen [] = ([], seen)"
| "uniqueUrls seen (u # us) =
     (let (keep, seen') = admit seen u;
          (rest, seen'') = uniqueUrls seen' us
      in (if keep then u # rest else rest, seen''))"

section \<open>Fetching and reporting\<close>

text \<open>
  What the program does to the outside is recorded as a trace of events. The outcome of
  the \<open>n\<close>-th call of \<open>fetch\<close> in a run is given by the environment, a function of \<open>n\<close>: a
  rejected promise, or a response with its status and with the outcome of reading its
  body (\<open>res.text()\<close> also returns a promise that may be rejected).
\<close>

datatype bodyOutcome = BodyText string | BodyError string

record response =
  ok :: bool
  status :: nat
  body :: bodyOutcome

datatype fetchOutcome = Rejected string | Resolved response

type_synonym world = "nat \<Rightarrow> fetchOutcome"

text \<open>The value thrown inside \<open>fetchWithRetry\<close>: what \<open>fetch\<close> rejected with, or \<open>Status n\<close>.\<close>

datatype fetchError = FetchRejected string | StatusError nat

record resultRecord =
  url :: string
  title :: "string option"
  email :: "string option"

datatype diagnostic = FailedToFetch string fetchError | FailedToRead string string

datatype event = Fetch string | Sleep nat | Stdout resultRecord | Stderr diagnostic

record io =
  calls :: nat
  trace :: "event list"

definition fetch :: "world \<Rightarrow> string \<Rightarrow> io \<Rightarrow> fetchOutcome \<times> io" where
  "fetch w u s = (w (calls s), s\<lparr>calls := calls s + 1, trace := trace s @ [Fetch u]\<rparr>)"

definition sleep :: "nat \<Rightarrow> io \<Rightarrow> io" where
  "sleep ms s = s\<lparr>trace := trace s @ [Sleep ms]\<rparr>"

definition consoleError :: "diagnostic \<Rightarrow> io \<Rightarrow> io" where
  "consoleError d s = s\<lparr>trace := trace s @ [Stderr d]\<rparr>"

definition consoleLog :: "resultRecord \<Rightarrow> io \<Rightarrow> io" where
  "consoleLog r s = s\<lparr>trace := trace s @ [Stdout r]\<rparr>"

text \<open>
  One \<open>try\<close> block of \<open>fetchWithRetry\<close>:
  \<open>const res = await fetch(addProtocol(url)); if (!res.ok) throw new Error(...); return res;\<close>
\<close>

definition attempt :: "world \<Rightarrow> string \<Rightarrow> io \<Rightarrow> (fetchError + response) \<times> io" where
  "attempt w u s =
     (let (out, s') = fetch w (addProtocol u) s
      in (case out of
            Rejected e \<Rightarrow> (Inl (FetchRejected e), s')
          | Resolved res \<Rightarrow> if \<not> ok res then (Inl (StatusError (status res)), s') else (Inr res, s')))"

text \<open>
  The success criterion of an attempt, read off the outcome of the \<open>fetch\<close>: the error
  with which the attempt fails, or \<open>None\<close> for a response with an OK status.
\<close>

definition failure :: "fetchOutcome \<Rightarrow> fetchError option" where
  "failure out =
     (case out of
        Rejected e \<Rightarrow> Some (FetchRejected e)
      | Resolved res \<Rightarrow> if ok res then None else Some (StatusError (status res)))"

text \<open>\<open>None\<close> is the \<open>null\<close> that \<open>fetchWithRetry\<close> returns after two failures.\<close>

definition fetchWithRetry :: "world \<Rightarrow> string \<Rightarrow> io \<Rightarrow> response option \<times> io" where
  "fetchWithRetry w u s =
     (case attempt w u s of
        (Inr res, s1) \<Rightarrow> (Some res, s1)
      | (Inl err, s1) \<Rightarrow>
          (case attempt w u (sleep 60000 s1) of
             (Inr res2, s2) \<Rightarrow> (Some res2, s2)
           | (Inl err2, s2) \<Rightarrow> (None, consoleError (FailedToFetch u err2) s2)))"

text \<open>
  The helpers \<open>extractTitle\<close>, \<open>extractFirstEmail\<close> and \<open>hashEmail\<close> are pure functions
  on strings; \<open>processUrl\<close> only uses their results, so they are parameters here.
  \<open>None\<close> is \<open>undefined\<close>.
\<close>

record helpers =
  extractTitle :: "string \<Rightarrow> string option"
  extractFirstEmail :: "string \<Rightarrow> string option"
  hashEmail :: "string \<Rightarrow> string \<Rightarrow> string"

text \<open>Truthiness of an optional string: \<open>undefined\<close> and the empty string are falsy.\<close>

definition truthy :: "string option \<Rightarrow> bool" where
  "truthy x = (case x of None \<Rightarrow> False | Some v \<Rightarrow> v \<noteq> [])"

definition makeOutput :: "helpers \<Rightarrow> string \<Rightarrow> string option \<Rightarrow> string \<Rightarrow> resultRecord" where
  "makeOutput h u secret html =
     (let t = extractTitle h html;
          e = extractFirstEmail h html
      in \<lparr>url = u,
          title = (if truthy t then t else None),
          email = (case (e, secret) of
                     (Some ev, Some sv) \<Rightarrow>
                       if ev \<noteq> [] \<and> sv \<noteq> [] then Some (hashEmail h ev sv) else None
                   | _ \<Rightarrow> None)\<rparr>)"

text \<open>
  \<open>processUrl\<close>: \<open>Inl e\<close> is an exception that leaves the function (the promise it
  returns is rejected with \<open>e\<close>), \<open>Inr ()\<close> a normal return.
\<close>

definition processUrl :: "world \<Rightarrow> helpers \<Rightarrow> string \<Rightarrow> string option \<Rightarrow> io \<Rightarrow> (string + unit) \<times> io" where
  "processUrl w h u secret s =
     (case fetchWithRetry w u s of
        (None, s1) \<Rightarrow> (Inr (), s1)
      | (Some res, s1) \<Rightarrow>
          (case body res of
             BodyError e \<Rightarrow> (Inl e, s1)
           | BodyText html \<Rightarrow> (Inr (), consoleLog (makeOutput h u secret html) s1)))"

text \<open>Every body that the world delivers with an OK response can be read.\<close>

definition bodiesReadable :: "world \<Rightarrow> bool" where
  "bodiesReadable w = (\<forall>n res. w n = Resolved res \<and> ok res \<longrightarrow> (\<exists>html. body res = BodyText html))"

section \<open>File mode\<close>

text \<open>\<open>for (const url of uniqueUrls) { await processUrl(url, secret); await sleep(1000); }\<close>\<close>

fun processAll :: "world \<Rightarrow> helpers \<Rightarrow> string option \<Rightarrow> string list \<Rightarrow> io \<Rightarrow> (string + unit) \<times> io" where
  "processAll w h secret [] s = (Inr (), s)"
| "processAll w h secret (u # us) s =
     (case processUrl w h u secret s of
        (Inl e, s1) \<Rightarrow> (Inl e, s1)
      | (Inr _, s1) \<Rightarrow> processAll w h secret us (sleep 1000 s1))"

text \<open>\<open>fs.readFileSync(filePath, "utf8")\<close> returns the text or throws.\<close>

datatype readOutcome = ReadOk string | ReadError string

definition initIo :: io where
  "initIo = \<lparr>calls = 0, trace = []\<rparr>"

text \<open>
  The branch of \<open>main\<close> for a file argument. The result is how the promise of \<open>main\<close>
  settles: \<open>Inr ()\<close> when \<open>main\<close> returns, \<open>Inl e\<close> when an exception leaves it.
\<close>

definition mainFile :: "world \<Rightarrow> helpers \<Rightarrow> string option \<Rightarrow> string \<Rightarrow> readOutcome \<Rightarrow> (string + unit) \<times> io" where
  "mainFile w h secret filePath rd =
     (case rd of
        ReadError e \<Rightarrow> (Inr (), consoleError (FailedToRead filePath e) initIo)
      | ReadOk text \<Rightarrow>
          (let urls = parseUrls text;
               (uniq, seen') = uniqueUrls {} urls
           in processAll w h secret uniq initIo))"


section \<open>Stream mode\<close>

text \<open>\<open>buffer.lastIndexOf("]")\<close>: the index of the last occurrence, or \<open>-1\<close>.\<close>

definition lastIndexOf :: "char \<Rightarrow> string \<Rightarrow> int" where
  "lastIndexOf c s =
     (case filter (\<lambda>i. s ! i = c) (rev [0..<length s]) of
        [] \<Rightarrow> - 1
      | i # _ \<Rightarrow> int i)"

text \<open>
  The stream mode runs on the event loop: the handlers of \<open>data\<close> and \<open>end\<close> run when
  the input delivers a chunk or closes, and the asynchronous function \<open>drain\<close> runs
  until it awaits, and goes on when what it awaits has settled. \<open>worker\<close> says where
  \<open>drain\<close> is suspended: nowhere (no call of \<open>drain\<close> is under way), in
  \<open>await processUrl(next, secret)\<close>, or in \<open>await sleep(1000)\<close>.
\<close>

datatype worker = Idle | Busy string | Pausing

text \<open>
  How the process stands: running, ended by \<open>process.exit(0)\<close>, or ended by an exception
  that left \<open>drain\<close>. The promise of \<open>drain\<close> has no handler (\<open>void drain()\<close>), and a
  rejected promise without a handler ends a Node.js process of version 15 or later.
\<close>

datatype status = Alive | Exited nat | Crashed string

text \<open>
  The variables of the stream branch of \<open>main\<close> (\<open>sbuffer\<close> is its \<open>buffer\<close>) and the
  trace \<open>sio\<close>. While a call of \<open>processUrl\<close> is under way, \<open>pending\<close> is the trace as
  it was when the call was made. For the statements about order and timing the state
  also carries a clock \<open>now\<close> in milliseconds, the time \<open>due\<close> at which the timer of the
  pending \<open>sleep(1000)\<close> fires, the list \<open>arrivals\<close> of the URLs given to \<open>enqueue\<close> so
  far, and the list \<open>starts\<close> of the calls of \<open>processUrl\<close> so far with the time of each
  call.
\<close>

record sstate =
  sbuffer :: string
  seen :: "string set"
  queue :: "string list"
  processing :: bool
  ended :: bool
  worker :: worker
  stat :: status
  sio :: io
  pending :: io
  now :: nat
  due :: nat
  arrivals :: "string list"
  starts :: "(nat \<times> string) list"

definition initStream :: sstate where
  "initStream = \<lparr>sbuffer = [], seen = {}, queue = [], processing = False, ended = False,
     worker = Idle, stat = Alive, sio = initIo, pending = initIo, now = 0, due = 0,
     arrivals = [], starts = []\<rparr>"

text \<open>
  The \<open>finally\<close> block of \<open>drain\<close>:
  \<open>processing = false; if (ended && queue.length === 0) process.exit(0);\<close>
\<close>

definition drainFinally :: "sstate \<Rightarrow> sstate" where
  "drainFinally s =
     (let s1 = s\<lparr>processing := False, worker := Idle\<rparr>
      in if ended s1 \<and> queue s1 = [] then s1\<lparr>stat := Exited 0\<rparr> else s1)"

text \<open>
  A call of \<open>processUrl\<close> runs without a break up to its first \<open>await\<close>, which is
  \<open>await fetch(addProtocol(url))\<close> in \<open>fetchWithRetry\<close>: \<open>fetch\<close> has been called, its
  outcome is not there yet. \<open>fetchCall\<close> is what the call of \<open>fetch\<close> does to the trace.
\<close>

definition fetchCall :: "string \<Rightarrow> io \<Rightarrow> io" where
  "fetchCall u s = s\<lparr>calls := calls s + 1, trace := trace s @ [Fetch u]\<rparr>"

text \<open>
  The head of the loop \<open>while (queue.length > 0)\<close> of \<open>drain\<close>: with a task in the
  queue, \<open>queue.shift()\<close> and the call of \<open>processUrl\<close>, which runs up to its first
  \<open>await\<close>; with the queue empty, the \<open>finally\<close> block.
\<close>

definition drainLoop :: "sstate \<Rightarrow> sstate" where
  "drainLoop s =
     (case queue s of
        [] \<Rightarrow> drainFinally s
      | next # rest \<Rightarrow>
          s\<lparr>queue := rest, worker := Busy next, pending := sio s,
            sio := fetchCall (addProtocol next) (sio s), starts := starts s @ [(now s, next)]\<rparr>)"

definition drain :: "sstate \<Rightarrow> sstate" where
  "drain s = (if processing s then s else drainLoop (s\<lparr>processing := True\<rparr>))"

definition enqueue :: "string \<Rightarrow> sstate \<Rightarrow> sstate" where
  "enqueue u s = drain (s\<lparr>queue := queue s @ [u], arrivals := arrivals s @ [u]\<rparr>)"

text \<open>The body of \<open>for (const url of urls)\<close> in the handler of \<open>data\<close>.\<close>

definition schedule :: "sstate \<Rightarrow> string \<Rightarrow> sstate" where
  "schedule s u =
     (case admit (seen s) u of
        (True, seen') \<Rightarrow> enqueue u (s\<lparr>seen := seen'\<rparr>)
      | (False, _) \<Rightarrow> s)"

text \<open>The handler of \<open>data\<close>.\<close>

definition onData :: "string \<Rightarrow> sstate \<Rightarrow> sstate" where
  "onData chunk s =
     (let buf = sbuffer s @ chunk;
          urls = parseUrls buf;
          s1 = foldl schedule (s\<lparr>sbuffer := buf\<rparr>) urls;
          lastClose = lastIndexOf CHR '']'' buf
      in if lastClose \<noteq> - 1 then s1\<lparr>sbuffer := drop (nat (lastClose + 1)) buf\<rparr> else s1)"

text \<open>The handler of \<open>end\<close>.\<close>

definition onEnd :: "sstate \<Rightarrow> sstate" where
  "onEnd s =
     (let s1 = s\<lparr>ended := True\<rparr>
      in if \<not> processing s1 \<and> queue s1 = [] then s1\<lparr>stat := Exited 0\<rparr> else s1)"

text \<open>
  The call of \<open>processUrl\<close> that \<open>drain\<close> awaits settles: the call, made when the trace
  was \<open>pending\<close>, has run to its end, and its trace begins with the call of \<open>fetch\<close> that
  the start of the task has put into \<open>sio\<close>. \<open>drain\<close> goes on after
  \<open>await processUrl(next, secret)\<close>: after a normal return it starts \<open>sleep(1000)\<close>; an
  exception runs the \<open>finally\<close> block and leaves \<open>drain\<close>.
\<close>

definition onComplete :: "world \<Rightarrow> helpers \<Rightarrow> string option \<Rightarrow> string \<Rightarrow> sstate \<Rightarrow> sstate" where
  "onComplete w h secret u s =
     (case processUrl w h u secret (pending s) of
        (Inr _, io1) \<Rightarrow> s\<lparr>sio := sleep 1000 io1, worker := Pausing, due := now s + 1000\<rparr>
      | (Inl e, io1) \<Rightarrow>
          (let s1 = drainFinally (s\<lparr>sio := io1\<rparr>)
           in if stat s1 = Alive then s1\<lparr>stat := Crashed e\<rparr> else s1))"

text \<open>
  What can happen to the running process: a chunk arrives, the input closes, the call of
  \<open>processUrl\<close> that \<open>drain\<close> awaits settles, the timer of \<open>sleep(1000)\<close> fires (not
  before it is due), or time passes. \<open>None\<close>: the event cannot happen in this state.
\<close>

datatype sevent = Data string | End | Complete | Wake | Tick nat

definition sstep :: "world \<Rightarrow> helpers \<Rightarrow> string option \<Rightarrow> sstate \<Rightarrow> sevent \<Rightarrow> sstate option" where
  "sstep w h secret s ev =
     (if stat s \<noteq> Alive then None
      else case ev of
        Data chunk \<Rightarrow> if ended s then None else Some (onData chunk s)
      | End \<Rightarrow> if ended s then None else Some (onEnd s)
      | Complete \<Rightarrow> (case worker s of Busy u \<Rightarrow> Some (onComplete w h secret u s) | _ \<Rightarrow> None)
      | Wake \<Rightarrow> if worker s = Pausing \<and> due s \<le> now s then Some (drainLoop s) else None
      | Tick d \<Rightarrow> Some (s\<lparr>now := now s + d\<rparr>))"

fun srun :: "world \<Rightarrow> helpers \<Rightarrow> string option \<Rightarrow> sstate \<Rightarrow> sevent list \<Rightarrow> sstate option" where
  "srun w h secret s [] = Some s"
| "srun w h secret s (ev # evs) =
     (case sstep w h secret s ev of
        None \<Rightarrow> None
      | Some s1 \<Rightarrow> srun w h secret s1 evs)"

text \<open>
  Start times that are at least 1000 milliseconds apart, each from the next.
\<close>

fun spaced :: "(nat \<times> string) list \<Rightarrow> bool" where
  "spaced (a # b # r) = (fst a + 1000 \<le> fst b \<and> spaced (b # r))"
| "spaced [a] = True"
| "spaced [] = True"

text \<open>
  A trace is paced when a \<open>Sleep\<close> of at least 1000 milliseconds stands between any two
  of its \<open>Fetch\<close> events. The flag says whether a \<open>Fetch\<close> has occurred since the last
  such \<open>Sleep\<close>; \<open>hotAfter\<close> gives the flag at the end of the trace.
\<close>

fun hotAfter :: "bool \<Rightarrow> event list \<Rightarrow> bool" where
  "hotAfter hot [] = hot"
| "hotAfter hot (Fetch u # es) = hotAfter True es"
| "hotAfter hot (Sleep ms # es) = hotAfter (hot \<and> ms < 1000) es"
| "hotAfter hot (Stdout r # es) = hotAfter hot es"
| "hotAfter hot (Stderr d # es) = hotAfter hot es"

fun paced :: "bool \<Rightarrow> event list \<Rightarrow> bool" where
  "paced hot [] = True"
| "paced hot (Fetch u # es) = (\<not> hot \<and> paced True es)"
| "paced hot (Sleep ms # es) = paced (hot \<and> ms < 1000) es"
| "paced hot (Stdout r # es) = paced hot es"
| "paced hot (Stderr d # es) = paced hot es"

text \<open>
  What holds in every state of a run of the stream mode: the tasks started and the tasks
  waiting are, in this order, the URLs given to \<open>enqueue\<close>; the start times are spaced;
  no start lies in the future; \<open>processing\<close> is set exactly while \<open>drain\<close> is under way,
  and \<open>drain\<close> is under way whenever a task waits; when \<open>drain\<close> is not under way, or is
  in its pause until \<open>due\<close>, the last start is at least 1000 milliseconds before now, or
  before \<open>due\<close>; the trace is paced; it ends with a long enough \<open>Sleep\<close> after its last
  \<open>Fetch\<close> unless a task is under way, and then it is the trace \<open>pending\<close>, which ends
  in this way, followed by the call of \<open>fetch\<close> for the task.
\<close>

definition queueInv :: "sstate \<Rightarrow> bool" where
  "queueInv s =
     (map snd (starts s) @ queue s = arrivals s
      \<and> spaced (starts s)
      \<and> (starts s \<noteq> [] \<longrightarrow> fst (last (starts s)) \<le> now s)
      \<and> (stat s = Alive \<longrightarrow> processing s = (worker s \<noteq> Idle))
      \<and> (stat s = Alive \<and> worker s = Idle \<longrightarrow> queue s = [])
      \<and> (stat s = Alive \<and> worker s = Idle \<and> starts s \<noteq> [] \<longrightarrow> fst (last (starts s)) + 1000 \<le> now s)
      \<and> (worker s = Pausing \<and> starts s \<noteq> [] \<longrightarrow> fst (last (starts s)) + 1000 \<le> due s)
      \<and> paced False (trace (sio s))
      \<and> (stat s = Alive \<and> (worker s = Idle \<or> worker s = Pausing) \<longrightarrow> \<not> hotAfter False (trace (sio s)))
      \<and> (\<forall>u. stat s = Alive \<and> worker s = Busy u \<longrightarrow>
            sio s = fetchCall (addProtocol u) (pending s)
            \<and> paced False (trace (pending s)) \<and> \<not> hotAfter False (trace (pending s))))"

text \<open>
  The events that serve the task at the head of the queue, with no further input: the
  task under way settles, the pause passes, the timer fires.
\<close>

definition serveNext :: "sstate \<Rightarrow> sevent list" where
  "serveNext s =
     (case worker s of
        Busy u \<Rightarrow> [Complete, Tick 1000, Wake]
      | Pausing \<Rightarrow> [Tick (due s - now s), Wake]
      | Idle \<Rightarrow> [])"

text \<open>
  In a state reached from the initial one, the URLs given to \<open>enqueue\<close> are the elements
  of \<open>seen\<close>, each given once.
\<close>

definition dedupInv :: "sstate \<Rightarrow> bool" where
  "dedupInv s = (set (arrivals s) = seen s \<and> distinct (arrivals s))"

text \<open>The URLs handed to \<open>enqueue\<close> by a sequence of chunks, from the initial state.\<close>

definition streamUrls :: "string list \<Rightarrow> string list" where
  "streamUrls chunks = arrivals (foldl (\<lambda>s c. onData c s) initStream chunks)"


section \<open>Concrete inputs\<close>

text \<open>A world in which every \<open>fetch\<close> is rejected.\<close>

definition failingWorld :: world where
  "failingWorld n = Rejected ''unreachable''"

text \<open>
  A world in which every \<open>fetch\<close> gets a response with status 200 whose body cannot be
  read.
\<close>

definition brokenBodyWorld :: world where
  "brokenBodyWorld n = Resolved \<lparr>ok = True, status = 200, body = BodyError ''terminated''\<rparr>"

text \<open>
  A world in which the first \<open>fetch\<close> is rejected and every later one gets a response
  with status 200 and the body \<open>page\<close>.
\<close>

definition retryWorld :: world where
  "retryWorld n = (if n = 0 then Rejected ''unreachable''
                   else Resolved \<lparr>ok = True, status = 200, body = BodyText ''page''\<rparr>)"

text \<open>
  A world in which the first \<open>fetch\<close> is rejected and every later one gets a response
  with status 200 whose body cannot be read.
\<close>

definition retryBrokenWorld :: world where
  "retryBrokenWorld n = (if n = 0 then Rejected ''unreachable''
                         else Resolved \<lparr>ok = True, status = 200, body = BodyError ''terminated''\<rparr>)"

text \<open>A world in which every \<open>fetch\<close> gets a response with status 503.\<close>

definition unavailableWorld :: world where
  "unavailableWorld n = Resolved \<lparr>ok = False, status = 503, body = BodyText []\<rparr>"

text \<open>A chunk that opens a group and holds an escaped closing bracket: \<open>[ www.a.com \] \<close>.\<close>

definition escapedChunk :: string where
  "escapedChunk = ''[ www.a.com '' @ [bslash] @ ''] ''"

text \<open>A chunk that opens a group and holds a closed inner group: \<open>[ [x] www.a.com \<close>.\<close>

definition nestedChunk :: string where
  "nestedChunk = ''[ [x] www.a.com ''"

text \<open>
  A run of the stream mode: a chunk with two groups arrives, the first task completes,
  a second passes, the timer fires.
\<close>

definition sampleRun :: "sevent list" where
  "sampleRun = [Data ''[www.a.com][www.b.com]'', Complete, Tick 1000, Wake]"

text \<open>The state at the end of the run \<open>sampleRun\<close> when every \<open>fetch\<close> is rejected.\<close>

definition afterRun :: sstate where
  "afterRun = \<lparr>sbuffer = [], seen = {''www.b.com'', ''www.a.com''}, queue = [],
     processing = True, ended = False, worker = Busy ''www.b.com'',
     stat = Alive,
     sio = \<lparr>calls = 3,
          trace = [Fetch ''https://www.a.com'', Sleep 60000, Fetch ''https://www.a.com'',
             Stderr (FailedToFetch ''www.a.com'' (FetchRejected ''unreachable'')),
             Sleep 1000, Fetch ''https://www.b.com'']\<rparr>,
     pending = \<lparr>calls = 2,
          trace = [Fetch ''https://www.a.com'', Sleep 60000, Fetch ''https://www.a.com'',
             Stderr (FailedToFetch ''www.a.com'' (FetchRejected ''unreachable'')),
             Sleep 1000]\<rparr>,
     now = 1000, due = 1000, arrivals = [''www.a.com'', ''www.b.com''],
     starts = [(0, ''www.a.com''), (1000, ''www.b.com'')]\<rparr>"

text \<open>
  Helpers for the concrete runs, whose pages hold neither a \<open>title\<close> element nor an email
  address: no title and no email is found.
\<close>

definition sampleHelpers :: helpers where
  "sampleHelpers = \<lparr>extractTitle = (\<lambda>html. None), extractFirstEmail = (\<lambda>html. None),
     hashEmail = (\<lambda>e s. s @ e)\<rparr>"

text \<open>The items of the text \<open>\\[www.a.com]\<close>: two backslashes and a group.\<close>

definition escapedBackslashItems :: "item list" where
  "escapedBackslashItems = [Chr bslash, Chr bslash, Grp (map Chr ''www.a.com'')]"

text \<open>The items of the text \<open>hi [www.a.com [www.b.com]][no url]\<close>.\<close>

definition sampleItems :: "item list" where
  "sampleItems = map Chr ''hi '' @ [Grp (map Chr ''www.a.com '' @ [Grp (map Chr ''www.b.com'')])]
     @ [Grp (map Chr ''no url'')]"

section \<open>Properties of the regular expressions\<close>

lemma prefixCI_Nil [simp]: "prefixCI [] s"
  by (simp add: prefixCI_def)

lemma prefixCI_Cons:
  "prefixCI (p # ps) s = (case s of [] \<Rightarrow> False | c # r \<Rightarrow> ciEq p c \<and> prefixCI ps r)"
  by (cases s) (auto simp: prefixCI_def)

lemma lit_m_eq: "lit_m p s = (if prefixCI p s then [drop (length p) s] else [])"
proof (induction p arbitrary: s)
  case Nil
  show ?case by simp
next
  case (Cons a p)
  show ?case
    by (cases s) (simp_all add: seq_m_def chr_m_def prefixCI_Cons Cons.IH)
qed

lemma ciEq_s: "ciEq CHR ''s'' c = (c = CHR ''s'' \<or> c = CHR ''S'')"
  by (simp add: ciEq_def canonicalize_def)

lemma ciEq_colon: "ciEq CHR '':'' c = (c = CHR '':'')"
  by (simp add: ciEq_def canonicalize_def)

lemma ciEq_s_colon: "ciEq CHR ''s'' c \<Longrightarrow> \<not> ciEq CHR '':'' c"
  by (auto simp: ciEq_s ciEq_colon)

lemma prefixCI_append:
  "length p = n \<Longrightarrow> prefixCI (p @ q) s = (prefixCI p s \<and> prefixCI q (drop n s))"
proof (induction p arbitrary: s n)
  case Nil
  then show ?case by simp
next
  case (Cons a p)
  from Cons.prems obtain m where n: "n = Suc m" and m: "length p = m" by (cases n) auto
  show ?case
  proof (cases s)
    case Nil
    then show ?thesis by (simp add: prefixCI_Cons)
  next
    case (Cons c r)
    then show ?thesis using Cons.IH [OF m, of r] by (simp add: prefixCI_Cons n)
  qed
qed

lemma lit_http: "lit_m ''http'' s = (if prefixCI ''http'' s then [drop 4 s] else [])"
  using lit_m_eq [of "''http''" s] by (simp add: eval_nat_numeral del: lit_m.simps)

lemma lit_s: "lit_m ''s'' s = (if prefixCI ''s'' s then [drop 1 s] else [])"
  using lit_m_eq [of "''s''" s] by (simp del: lit_m.simps)

lemma lit_css: "lit_m ''://'' s = (if prefixCI ''://'' s then [drop 3 s] else [])"
  using lit_m_eq [of "''://''" s] by (simp add: eval_nat_numeral del: lit_m.simps)

lemma lit_www: "lit_m ''www.'' s = (if prefixCI ''www.'' s then [drop 4 s] else [])"
  using lit_m_eq [of "''www.''" s] by (simp add: eval_nat_numeral del: lit_m.simps)

lemma prefixCI_https:
  "prefixCI ''https://'' s = (prefixCI ''http'' s \<and> prefixCI ''s'' (drop 4 s) \<and> prefixCI ''://'' (drop 5 s))"
proof -
  have a1: "prefixCI (''http'' @ ''s://'') s = (prefixCI ''http'' s \<and> prefixCI ''s://'' (drop 4 s))"
    by (rule prefixCI_append) simp
  have a2: "prefixCI (''s'' @ ''://'') (drop 4 s) = (prefixCI ''s'' (drop 4 s) \<and> prefixCI ''://'' (drop 1 (drop 4 s)))"
    by (rule prefixCI_append) simp
  show ?thesis using a1 a2 by simp
qed

lemma prefixCI_http:
  "prefixCI ''http://'' s = (prefixCI ''http'' s \<and> prefixCI ''://'' (drop 4 s))"
proof -
  have b1: "prefixCI (''http'' @ ''://'') s = (prefixCI ''http'' s \<and> prefixCI ''://'' (drop 4 s))"
    by (rule prefixCI_append) simp
  show ?thesis using b1 by simp
qed

lemma prefixCI_s_excl: "prefixCI ''s'' t \<Longrightarrow> \<not> prefixCI ''://'' t"
  by (cases t) (auto simp: prefixCI_Cons dest: ciEq_s_colon)

lemma schemeRe_eq:
  "schemeRe s = (if prefixCI ''https://'' s then [drop 8 s]
                 else if prefixCI ''http://'' s then [drop 7 s] else [])"
proof (cases "prefixCI ''http'' s")
  case False
  then show ?thesis
    by (simp add: schemeRe_def seq_m_def lit_http prefixCI_https prefixCI_http del: lit_m.simps)
next
  case h: True
  show ?thesis
  proof (cases "prefixCI ''s'' (drop 4 s)")
    case True
    with h prefixCI_s_excl [OF True] show ?thesis
      by (simp add: schemeRe_def seq_m_def opt_m_def lit_http lit_s lit_css prefixCI_https prefixCI_http del: lit_m.simps)
  next
    case False
    with h show ?thesis
      by (simp add: schemeRe_def seq_m_def opt_m_def lit_http lit_s lit_css prefixCI_https prefixCI_http del: lit_m.simps)
  qed
qed

lemma plus_m_hd: "plus_m p s \<noteq> [] \<Longrightarrow> hd (plus_m p s) = dropWhile p s"
proof (induction s)
  case Nil
  then show ?case by simp
next
  case (Cons a s)
  then show ?case by (cases s) (auto simp: hd_append split: if_splits)
qed

lemma ciEq_chars:
  "ciEq CHR ''h'' c = (c = CHR ''h'' \<or> c = CHR ''H'')"
  "ciEq CHR ''t'' c = (c = CHR ''t'' \<or> c = CHR ''T'')"
  "ciEq CHR ''p'' c = (c = CHR ''p'' \<or> c = CHR ''P'')"
  "ciEq CHR ''w'' c = (c = CHR ''w'' \<or> c = CHR ''W'')"
  "ciEq CHR ''/'' c = (c = CHR ''/'')"
  "ciEq CHR ''.'' c = (c = CHR ''.'')"
  by (simp_all add: ciEq_def canonicalize_def)

lemma urlChar_simps:
  "urlChar CHR ''h''" "urlChar CHR ''H''" "urlChar CHR ''t''" "urlChar CHR ''T''"
  "urlChar CHR ''p''" "urlChar CHR ''P''" "urlChar CHR ''s''" "urlChar CHR ''S''"
  "urlChar CHR ''w''" "urlChar CHR ''W''" "urlChar CHR '':''" "urlChar CHR ''/''" "urlChar CHR ''.''"
  by (simp_all add: urlChar_def isSpace_def)

lemma ciEq_urlChar:
  "p \<in> set ''https://www.'' \<Longrightarrow> ciEq p c \<Longrightarrow> urlChar c"
  by (auto simp: ciEq_chars ciEq_s ciEq_colon urlChar_simps)

lemma prefixCI_urlChars:
  "set p \<subseteq> set ''https://www.'' \<Longrightarrow> prefixCI p s \<Longrightarrow> \<forall>c \<in> set (take (length p) s). urlChar c"
proof (induction p arbitrary: s)
  case Nil
  then show ?case by simp
next
  case (Cons a p)
  from Cons.prems(2) obtain c r where s: "s = c # r" and a: "ciEq a c" and p: "prefixCI p r"
    by (cases s) (auto simp: prefixCI_Cons)
  from Cons.prems(1) have "a \<in> set ''https://www.''" and "set p \<subseteq> set ''https://www.''" by auto
  with Cons.IH [of r] a p ciEq_urlChar [of a c] show ?case by (simp add: s)
qed

lemma www_not_http: "prefixCI ''www.'' s \<Longrightarrow> \<not> prefixCI ''http'' s"
  by (cases s) (auto simp: prefixCI_Cons ciEq_chars)

lemma takeWhile_take:
  "\<forall>c \<in> set (take n s). P c \<Longrightarrow> dropWhile P s = dropWhile P (drop n s)"
proof (induction n arbitrary: s)
  case 0
  then show ?case by simp
next
  case (Suc n)
  then show ?case by (cases s) auto
qed

lemma plus_m_hd': "plus_m p s = r # rs \<Longrightarrow> r = dropWhile p s"
  using plus_m_hd [of p s] by simp

lemma plus_m_ne: "(plus_m p s \<noteq> []) = (case s of [] \<Rightarrow> False | c # _ \<Rightarrow> p c)"
  by (cases s) auto

lemma urlStart_eq:
  "urlStart s = ((prefixCI ''https://'' s \<and> follows 8 s) \<or> (prefixCI ''http://'' s \<and> follows 7 s)
      \<or> (prefixCI ''www.'' s \<and> follows 4 s))"
  by (simp add: urlStart_def follows_def eval_nat_numeral)

lemma urlRegex_cases:
  "urlRegex s = (if prefixCI ''https://'' s then plus_m urlChar (drop 8 s)
                 else if prefixCI ''http://'' s then plus_m urlChar (drop 7 s)
                 else if prefixCI ''www.'' s then plus_m urlChar (drop 4 s) else [])"
proof -
  have "prefixCI ''www.'' s \<Longrightarrow> \<not> prefixCI ''http://'' s \<and> \<not> prefixCI ''https://'' s"
    using www_not_http [of s] by (simp add: prefixCI_https prefixCI_http)
  then show ?thesis
    by (auto simp add: urlRegex_def seq_m_def alt_m_def schemeRe_eq lit_www simp del: lit_m.simps)
qed

lemma https_not_http: "prefixCI ''https://'' s \<Longrightarrow> \<not> prefixCI ''http://'' s"
  using prefixCI_s_excl [of "drop 4 s"] by (simp add: prefixCI_https prefixCI_http)

lemma www_not_scheme: "prefixCI ''www.'' s \<Longrightarrow> \<not> prefixCI ''http://'' s \<and> \<not> prefixCI ''https://'' s"
  using www_not_http [of s] by (simp add: prefixCI_https prefixCI_http)

lemma urlRegex_ne: "(urlRegex s \<noteq> []) = urlStart s"
  using https_not_http [of s] www_not_scheme [of s]
  by (auto simp: urlRegex_cases urlStart_eq follows_def plus_m_ne)

lemma prefix_dropWhile:
  "set p \<subseteq> set ''https://www.'' \<Longrightarrow> prefixCI p s \<Longrightarrow> length p = n \<Longrightarrow>
   dropWhile urlChar (drop n s) = dropWhile urlChar s"
  using takeWhile_take [of n s urlChar] prefixCI_urlChars [of p s] by simp

lemma urlRegex_hd: "urlRegex s = r # rs \<Longrightarrow> r = dropWhile urlChar s"
proof -
  assume a: "urlRegex s = r # rs"
  have 1: "dropWhile urlChar (drop 8 s) = dropWhile urlChar s" if "prefixCI ''https://'' s"
    by (rule prefix_dropWhile [OF _ that]) auto
  have 2: "dropWhile urlChar (drop 7 s) = dropWhile urlChar s" if "prefixCI ''http://'' s"
    by (rule prefix_dropWhile [OF _ that]) auto
  have 3: "dropWhile urlChar (drop 4 s) = dropWhile urlChar s" if "prefixCI ''www.'' s"
    by (rule prefix_dropWhile [OF _ that]) auto
  from a 1 2 3 show ?thesis
    by (auto simp: urlRegex_cases split: if_splits dest!: plus_m_hd')
qed

lemma take_dropWhile: "take (length s - length (dropWhile P s)) s = takeWhile P s"
proof -
  have "length (takeWhile P s @ dropWhile P s) = length s"
    by simp
  then have "length s - length (dropWhile P s) = length (takeWhile P s)"
    by (simp del: takeWhile_dropWhile_id)
  then show ?thesis
    by (metis append_eq_conv_conj takeWhile_dropWhile_id)
qed

lemma regexExec_urlRegex:
  "regexExec urlRegex s =
     (if urlStart s then Some (takeWhile urlChar s, dropWhile urlChar s)
      else case s of [] \<Rightarrow> None | _ # t \<Rightarrow> regexExec urlRegex t)"
proof (cases "urlRegex s")
  case Nil
  with urlRegex_ne [of s] show ?thesis by (simp add: regexExec.simps [of _ s])
next
  case (Cons r rs)
  with urlRegex_ne [of s] urlRegex_hd [OF Cons] show ?thesis
    by (simp add: regexExec.simps [of _ s] take_dropWhile)
qed



lemma urlStart_hd: "urlStart s \<Longrightarrow> s \<noteq> [] \<and> urlChar (hd s)"
proof -
  assume u: "urlStart s"
  then obtain p where p: "p \<in> {''https://'', ''http://'', ''www.''}" and pre: "prefixCI p s"
    by (auto simp: urlStart_def)
  from p have sub: "set p \<subseteq> set ''https://www.''" and ne: "p \<noteq> []" by auto
  from ne pre have s: "s \<noteq> []" by (auto simp: prefixCI_def)
  from ne s have "hd s \<in> set (take (length p) s)" by (cases s; cases p) auto
  with prefixCI_urlChars [OF sub pre] s show ?thesis by blast
qed

lemma urlStart_Nil: "\<not> urlStart []"
  using urlStart_hd [of "[]"] by blast

lemma urlStart_takeWhile: "urlStart s \<Longrightarrow> takeWhile urlChar s \<noteq> []"
  using urlStart_hd [of s] by (cases s) auto

lemma regexExec_None: "(regexExec urlRegex s = None) = (\<forall>k \<le> length s. \<not> urlStart (drop k s))"
proof (induction s)
  case Nil
  show ?case by (simp add: regexExec_urlRegex [of "[]"] urlStart_Nil)
next
  case (Cons c s)
  have "(\<forall>k \<le> length (c # s). \<not> urlStart (drop k (c # s))) =
        (\<not> urlStart (c # s) \<and> (\<forall>k \<le> length s. \<not> urlStart (drop k s)))"
  proof
    assume a: "\<forall>k \<le> length (c # s). \<not> urlStart (drop k (c # s))"
    then have "\<not> urlStart (drop 0 (c # s))" by blast
    moreover have "\<not> urlStart (drop k s)" if "k \<le> length s" for k
      using a that by (auto dest!: spec [of _ "Suc k"])
    ultimately show "\<not> urlStart (c # s) \<and> (\<forall>k \<le> length s. \<not> urlStart (drop k s))" by simp
  next
    assume a: "\<not> urlStart (c # s) \<and> (\<forall>k \<le> length s. \<not> urlStart (drop k s))"
    show "\<forall>k \<le> length (c # s). \<not> urlStart (drop k (c # s))"
    proof (intro allI impI)
      fix k assume "k \<le> length (c # s)"
      with a show "\<not> urlStart (drop k (c # s))" by (cases k) auto
    qed
  qed
  with Cons show ?case by (simp add: regexExec_urlRegex [of "c # s"])
qed

lemma regexExec_Some:
  "regexExec urlRegex s = Some (m, rest) \<Longrightarrow>
   \<exists>pre. s = pre @ m @ rest \<and> (\<forall>k < length pre. \<not> urlStart (drop k s)) \<and> urlStart (m @ rest)
      \<and> m = takeWhile urlChar (m @ rest) \<and> rest = dropWhile urlChar (m @ rest)"
proof (induction s)
  case Nil
  then show ?case by (simp add: regexExec_urlRegex [of "[]"] urlStart_Nil)
next
  case (Cons c s)
  show ?case
  proof (cases "urlStart (c # s)")
    case True
    with Cons.prems have m: "m = takeWhile urlChar (c # s)" and r: "rest = dropWhile urlChar (c # s)"
      by (simp_all add: regexExec_urlRegex [of "c # s"])
    then have "c # s = [] @ m @ rest" by simp
    moreover have "m @ rest = c # s" using m r by simp
    ultimately show ?thesis using True m r
      by (intro exI [of _ "[]"]) (simp del: takeWhile.simps dropWhile.simps)
  next
    case False
    with Cons.prems have "regexExec urlRegex s = Some (m, rest)"
      by (simp add: regexExec_urlRegex [of "c # s"])
    from Cons.IH [OF this] obtain pre where pre: "s = pre @ m @ rest"
      and left: "\<forall>k < length pre. \<not> urlStart (drop k s)" and st: "urlStart (m @ rest)"
      and m: "m = takeWhile urlChar (m @ rest)" and r: "rest = dropWhile urlChar (m @ rest)"
      by blast
    have "\<forall>k < length (c # pre). \<not> urlStart (drop k (c # s))"
    proof (intro allI impI)
      fix k assume "k < length (c # pre)"
      with left False show "\<not> urlStart (drop k (c # s))" by (cases k) auto
    qed
    with pre st m r show ?thesis
      by (intro exI [of _ "c # pre"]) simp
  qed
qed

lemma regexExec_shorter: "regexExec urlRegex s = Some (m, rest) \<Longrightarrow> length rest < length s"
proof -
  assume a: "regexExec urlRegex s = Some (m, rest)"
  from regexExec_Some [OF a] obtain pre where s: "s = pre @ m @ rest"
    and st: "urlStart (m @ rest)" and m: "m = takeWhile urlChar (m @ rest)" by blast
  from urlStart_takeWhile [OF st] m have "m \<noteq> []" by simp
  then have "length m > 0" by simp
  then show ?thesis by (subst s) simp
qed

lemma execLoop_append:
  "execLoop (\<lambda>m acc. acc @ [m]) acc s = acc @ execLoop (\<lambda>m acc. acc @ [m]) [] s"
proof (induction "length s" arbitrary: s acc rule: less_induct)
  case less
  show ?case
  proof (cases "regexExec urlRegex s")
    case None
    then show ?thesis by (simp add: execLoop.simps [of _ _ s])
  next
    case (Some a)
    obtain m rest where a: "a = (m, rest)" by (cases a)
    from Some a have sh: "length rest < length s" by (simp add: regexExec_shorter)
    from less [OF sh, of "acc @ [m]"] less [OF sh, of "[m]"] Some a
    show ?thesis by (simp add: execLoop.simps [of _ _ s])
  qed
qed

lemma tokens_unfold:
  "tokens s = (case regexExec urlRegex s of None \<Rightarrow> [] | Some (m, rest) \<Rightarrow> m # tokens rest)"
proof (cases "regexExec urlRegex s")
  case None
  then show ?thesis by (simp add: tokens_def execLoop.simps [of _ _ s])
next
  case (Some a)
  obtain m rest where a: "a = (m, rest)" by (cases a)
  from Some a execLoop_append [of "[m]" rest] show ?thesis
    by (simp add: tokens_def execLoop.simps [of _ _ s])
qed

lemma execLoop_last:
  "execLoop (\<lambda>m l. Some m) acc s = (if tokens s = [] then acc else Some (last (tokens s)))"
proof (induction "length s" arbitrary: s acc rule: less_induct)
  case less
  show ?case
  proof (cases "regexExec urlRegex s")
    case None
    then show ?thesis by (simp add: execLoop.simps [of _ _ s] tokens_unfold [of s])
  next
    case (Some a)
    obtain m rest where a: "a = (m, rest)" by (cases a)
    from Some a have sh: "length rest < length s" by (simp add: regexExec_shorter)
    from less [OF sh, of "Some m"] Some a
    show ?thesis by (simp add: execLoop.simps [of _ _ s] tokens_unfold [of s])
  qed
qed

lemma lastUrl_tokens: "lastUrl b = (if tokens b = [] then None else Some (last (tokens b)))"
  by (simp add: lastUrl_def execLoop_last)

lemma tokens_nonempty: "m \<in> set (tokens s) \<Longrightarrow> m \<noteq> []"
proof (induction "length s" arbitrary: s rule: less_induct)
  case less
  show ?case
  proof (cases "regexExec urlRegex s")
    case None
    with less.prems show ?thesis by (simp add: tokens_unfold [of s])
  next
    case (Some a)
    obtain m' rest where a: "a = (m', rest)" by (cases a)
    from Some a have sh: "length rest < length s" by (simp add: regexExec_shorter)
    from regexExec_Some [of s m' rest] Some a obtain "urlStart (m' @ rest)" "m' = takeWhile urlChar (m' @ rest)"
      by auto
    with urlStart_takeWhile [of "m' @ rest"] have "m' \<noteq> []" by simp
    with less.hyps [OF sh] less.prems Some a show ?thesis by (auto simp: tokens_unfold [of s])
  qed
qed

lemma pushLast_lastUrl: "pushLast (lastUrl b) rs = rs @ emission b"
  using tokens_nonempty [of "last (tokens b)" b]
  by (auto simp: pushLast_def lastUrl_tokens emission_def)

text \<open>
  The matches that the loop over \<open>urlRegex.exec\<close> finds are the URL-like tokens of the
  specification.
\<close>

lemma tokens_urlTokens: "tokens s = urlTokens s"
proof (induction s rule: urlTokens.induct)
  case 1
  show ?case
    by (simp add: tokens_unfold [of "[]"] regexExec_urlRegex [of "[]"] urlStart_Nil urlTokens.simps)
next
  case (2 c s)
  show ?case
  proof (cases "urlStart (c # s)")
    case True
    with 2(1) show ?thesis
      by (simp add: tokens_unfold [of "c # s"] regexExec_urlRegex [of "c # s"] urlTokens.simps)
  next
    case False
    with 2(2) show ?thesis
      by (simp add: tokens_unfold [of "c # s"] regexExec_urlRegex [of "c # s"]
          tokens_unfold [of s, symmetric] urlTokens.simps)
  qed
qed

lemma emission_urlTokens:
  "emission b = (if urlTokens b = [] then [] else [last (urlTokens b)])"
  by (simp add: emission_def tokens_urlTokens)


section \<open>\<open>addProtocol\<close>\<close>

lemma hasProtocol_eq: "hasProtocol u = (prefixCI ''http://'' u \<or> prefixCI ''https://'' u)"
  by (auto simp: hasProtocol_def schemeRe_eq)

lemma prefixCI_refl_https: "prefixCI ''https://'' (''https://'' @ u)"
  by (simp add: prefixCI_def ciEq_def)

lemma addProtocol_has: "hasProtocol (addProtocol u)"
  using prefixCI_refl_https [of u] by (auto simp: addProtocol_def hasProtocol_eq)

lemma attempt_trace: "trace (snd (attempt w u s)) = trace s @ [Fetch (addProtocol u)]"
  by (simp add: attempt_def fetch_def split: fetchOutcome.splits)

lemma fetchWithRetry_trace:
  "\<exists>evs. trace (snd (fetchWithRetry w u s)) = trace s @ evs
      \<and> (\<forall>x. Fetch x \<in> set evs \<longrightarrow> x = addProtocol u)"
proof (cases "attempt w u s")
  case (Pair r s1)
  note a1 = Pair
  have t1: "trace s1 = trace s @ [Fetch (addProtocol u)]"
    using attempt_trace [of w u s] a1 by simp
  show ?thesis
  proof (cases r)
    case (Inr res)
    with a1 t1 show ?thesis by (simp add: fetchWithRetry_def)
  next
    case (Inl err)
    obtain r2 s2 where a2: "attempt w u (sleep 60000 s1) = (r2, s2)" by (cases "attempt w u (sleep 60000 s1)")
    have t2: "trace s2 = trace s @ [Fetch (addProtocol u), Sleep 60000, Fetch (addProtocol u)]"
      using attempt_trace [of w u "sleep 60000 s1"] a2 t1 by (simp add: sleep_def)
    show ?thesis
      using a1 Inl a2 t2 by (cases r2) (simp_all add: fetchWithRetry_def consoleError_def)
  qed
qed

text \<open>
  Claim C10. \<open>addProtocol\<close> is idempotent, and its result always begins with \<open>http://\<close> or
  \<open>https://\<close>, letter case ignored: a URL that begins so is returned as it is, any other
  string gets \<open>https://\<close> in front. Hence every \<open>fetch\<close> that \<open>fetchWithRetry\<close> makes is
  on a URL with a scheme.
\<close>

theorem addProtocol_idempotent:
  "addProtocol (addProtocol u) = addProtocol u
   \<and> (prefixCI ''http://'' (addProtocol u) \<or> prefixCI ''https://'' (addProtocol u))
   \<and> addProtocol u = (if prefixCI ''http://'' u \<or> prefixCI ''https://'' u then u else ''https://'' @ u)
   \<and> (\<forall>x. Fetch x \<in> set (trace (snd (fetchWithRetry w u s))) \<longrightarrow>
          Fetch x \<in> set (trace s) \<or> prefixCI ''http://'' x \<or> prefixCI ''https://'' x)"
proof -
  have 1: "addProtocol (addProtocol u) = addProtocol u"
    using addProtocol_has [of u] by (simp add: addProtocol_def [of "addProtocol u"])
  have 2: "prefixCI ''http://'' (addProtocol u) \<or> prefixCI ''https://'' (addProtocol u)"
    using addProtocol_has [of u] by (simp add: hasProtocol_eq)
  have 3: "addProtocol u = (if prefixCI ''http://'' u \<or> prefixCI ''https://'' u then u else ''https://'' @ u)"
    by (simp add: addProtocol_def hasProtocol_eq)
  have 4: "\<forall>x. Fetch x \<in> set (trace (snd (fetchWithRetry w u s))) \<longrightarrow>
          Fetch x \<in> set (trace s) \<or> prefixCI ''http://'' x \<or> prefixCI ''https://'' x"
    using fetchWithRetry_trace [of w u s] 2 by auto
  from 1 2 3 4 show ?thesis by blast
qed

text \<open>
  The theorem at the URL \<open>www.x\<close>, in a world where every \<open>fetch\<close> is rejected: the fetch
  is made on \<open>https://www.x\<close>.
\<close>

theorem addProtocol_idempotent_witness:
  "addProtocol (addProtocol ''www.x'') = ''https://www.x''
   \<and> addProtocol ''HTTP://x'' = ''HTTP://x''
   \<and> Fetch ''https://www.x'' \<in> set (trace (snd (fetchWithRetry failingWorld ''www.x'' initIo)))
   \<and> prefixCI ''https://'' ''https://www.x''"
proof -
  have a: "addProtocol ''www.x'' = ''https://www.x''" by code_simp
  have b: "addProtocol ''HTTP://x'' = ''HTTP://x''" by code_simp
  have c: "Fetch ''https://www.x'' \<in> set (trace (snd (fetchWithRetry failingWorld ''www.x'' initIo)))"
    by (simp add: fetchWithRetry_def attempt_def fetch_def failingWorld_def sleep_def
        consoleError_def initIo_def a)
  have d: "\<not> prefixCI ''http://'' ''https://www.x''" by code_simp
  have e: "Fetch ''https://www.x'' \<notin> set (trace initIo)" by (simp add: initIo_def)
  note t = addProtocol_idempotent [of "''www.x''" failingWorld initIo]
  from t have "addProtocol (addProtocol ''www.x'') = addProtocol ''www.x''"
    by (rule conjunct1)
  with a have 1: "addProtocol (addProtocol ''www.x'') = ''https://www.x''"
    by (simp only:)
  from t have "\<forall>x. Fetch x \<in> set (trace (snd (fetchWithRetry failingWorld ''www.x'' initIo))) \<longrightarrow>
          Fetch x \<in> set (trace initIo) \<or> prefixCI ''http://'' x \<or> prefixCI ''https://'' x"
    by (elim conjE)
  with c d e have 2: "prefixCI ''https://'' ''https://www.x''"
    by blast
  from 1 b c 2 show ?thesis by (intro conjI)
qed


section \<open>URL tokens\<close>

text \<open>
  Claim C8, as amended. A match of the URL pattern begins at the leftmost position of the
  searched text where \<open>https://\<close>, \<open>http://\<close> or \<open>www.\<close> stands, letter case ignored,
  followed by at least one character that is neither white space nor a bracket; it is
  the longest run of such characters from that position. There is no match exactly when
  no position is such a start. The tokens of a text are the successive matches, each
  search starting where the previous match ended. The characters before the start may
  belong to the same run of non-white-space characters.
\<close>

theorem url_token_match:
  "(regexExec urlRegex s = None \<longleftrightarrow> (\<forall>k \<le> length s. \<not> urlStart (drop k s)))
   \<and> (regexExec urlRegex s = Some (m, rest) \<longrightarrow>
        (\<exists>pre. s = pre @ m @ rest \<and> (\<forall>k < length pre. \<not> urlStart (drop k s))
           \<and> urlStart (m @ rest)
           \<and> m = takeWhile urlChar (m @ rest) \<and> rest = dropWhile urlChar (m @ rest)))
   \<and> tokens s = (case regexExec urlRegex s of None \<Rightarrow> [] | Some (m, rest) \<Rightarrow> m # tokens rest)"
  using regexExec_None [of s] regexExec_Some [of s m rest] tokens_unfold [of s]
  by (intro conjI impI)

text \<open>
  The theorem at the text \<open>xhttp://a.com b\<close>, which holds a match, and at the text
  \<open>ww.a\<close>, which holds none.
\<close>

lemma exec_x: "regexExec urlRegex ''xhttp://a.com b'' = Some (''http://a.com'', '' b'')"
  by code_simp

lemma exec_none: "regexExec urlRegex ''ww.a'' = None"
  by code_simp

theorem url_token_match_witness:
  "regexExec urlRegex ''xhttp://a.com b'' = Some (''http://a.com'', '' b'')
   \<and> urlStart (''http://a.com'' @ '' b'')
   \<and> ''http://a.com'' = takeWhile urlChar (''http://a.com'' @ '' b'')
   \<and> tokens ''xhttp://a.com b'' = ''http://a.com'' # tokens '' b''
   \<and> regexExec urlRegex ''ww.a'' = None
   \<and> (1::nat) \<le> length ''ww.a'' \<and> \<not> urlStart (drop 1 ''ww.a'')"
proof -
  note t = url_token_match [of "''xhttp://a.com b''" "''http://a.com''" "'' b''"]
  note n = url_token_match [of "''ww.a''" "[]" "[]"]
  from n have "(regexExec urlRegex ''ww.a'' = None) =
      (\<forall>k \<le> length ''ww.a''. \<not> urlStart (drop k ''ww.a''))"
    by (rule conjunct1)
  with exec_none have a: "\<forall>k \<le> length ''ww.a''. \<not> urlStart (drop k ''ww.a'')"
    by (simp only:)
  have b: "(1::nat) \<le> length ''ww.a''" by simp
  from a b have 3: "\<not> urlStart (drop 1 ''ww.a'')" by blast
  from t have "regexExec urlRegex ''xhttp://a.com b'' = Some (''http://a.com'', '' b'') \<longrightarrow>
        (\<exists>pre. ''xhttp://a.com b'' = pre @ ''http://a.com'' @ '' b''
           \<and> (\<forall>k < length pre. \<not> urlStart (drop k ''xhttp://a.com b''))
           \<and> urlStart (''http://a.com'' @ '' b'')
           \<and> ''http://a.com'' = takeWhile urlChar (''http://a.com'' @ '' b'')
           \<and> '' b'' = dropWhile urlChar (''http://a.com'' @ '' b''))"
    by (elim conjE)
  with exec_x have 1: "urlStart (''http://a.com'' @ '' b'')
      \<and> ''http://a.com'' = takeWhile urlChar (''http://a.com'' @ '' b'')"
    by blast
  from t have "tokens ''xhttp://a.com b'' =
     (case regexExec urlRegex ''xhttp://a.com b'' of None \<Rightarrow> [] | Some (m, rest) \<Rightarrow> m # tokens rest)"
    by (elim conjE)
  then have 2: "tokens ''xhttp://a.com b'' = ''http://a.com'' # tokens '' b''"
    by (simp only: exec_x option.case prod.case)
  from exec_x 1 2 exec_none b 3 show ?thesis by (intro conjI) blast+
qed

text \<open>
  Claim C8 as stated fails: the run \<open>xhttp://a.com\<close> does not begin with a scheme or with
  \<open>www.\<close>, and yet it yields the token \<open>http://a.com\<close>.
\<close>

theorem url_token_inside_run_counterexample:
  "\<not> urlStart ''xhttp://a.com'' \<and> tokens ''xhttp://a.com'' = [''http://a.com'']"
  by code_simp


section \<open>Deduplication: each URL once\<close>

lemma removeAll_filter': "removeAll u (filter P xs) = filter (\<lambda>x. x \<noteq> u \<and> P x) xs"
  by (induction xs) auto

lemma uniqueUrls_step:
  "uniqueUrls sn (u # us) =
     (if u \<in> sn then uniqueUrls sn us
      else (u # fst (uniqueUrls (insert u sn) us), snd (uniqueUrls (insert u sn) us)))"
  by (simp add: admit_def split: prod.splits)

lemma uniqueUrls_fst:
  "fst (uniqueUrls sn urls) = firstOccurrences (filter (\<lambda>u. u \<notin> sn) urls)"
proof (induction urls arbitrary: sn)
  case Nil
  show ?case by simp
next
  case (Cons u us)
  show ?case
  proof (cases "u \<in> sn")
    case True
    then show ?thesis using Cons.IH [of sn]
      by (simp add: uniqueUrls_step del: uniqueUrls.simps)
  next
    case False
    have "filter (\<lambda>x. x \<noteq> u \<and> x \<notin> sn) us = filter (\<lambda>x. x \<notin> insert u sn) us"
      by (rule filter_cong) auto
    then show ?thesis using False Cons.IH [of "insert u sn"]
      by (simp add: uniqueUrls_step removeAll_filter' del: uniqueUrls.simps)
  qed
qed

lemma uniqueUrls_snd: "snd (uniqueUrls sn urls) = sn \<union> set urls"
proof (induction urls arbitrary: sn)
  case Nil
  show ?case by simp
next
  case (Cons u us)
  show ?case using Cons.IH [of sn] Cons.IH [of "insert u sn"]
    by (cases "u \<in> sn") (auto simp: uniqueUrls_step simp del: uniqueUrls.simps)
qed

lemma set_firstOccurrences: "set (firstOccurrences xs) = set xs"
proof (induction "length xs" arbitrary: xs rule: less_induct)
  case less
  show ?case
  proof (cases xs)
    case Nil
    then show ?thesis by simp
  next
    case (Cons x ys)
    have "length (removeAll x ys) < length xs"
      using length_removeAll_less_eq [of x ys] Cons by (simp add: le_imp_less_Suc)
    from less [OF this] Cons show ?thesis by auto
  qed
qed

lemma distinct_firstOccurrences: "distinct (firstOccurrences xs)"
proof (induction "length xs" arbitrary: xs rule: less_induct)
  case less
  show ?case
  proof (cases xs)
    case Nil
    then show ?thesis by simp
  next
    case (Cons x ys)
    have "length (removeAll x ys) < length xs"
      using length_removeAll_less_eq [of x ys] Cons by (simp add: le_imp_less_Suc)
    from less [OF this] Cons show ?thesis by (simp add: set_firstOccurrences)
  qed
qed

lemma drainFinally_fields:
  "arrivals (drainFinally s) = arrivals s" "seen (drainFinally s) = seen s"
  "sbuffer (drainFinally s) = sbuffer s" "now (drainFinally s) = now s"
  by (simp_all add: drainFinally_def Let_def)

lemma drainLoop_fields:
  "arrivals (drainLoop s) = arrivals s" "seen (drainLoop s) = seen s"
  "sbuffer (drainLoop s) = sbuffer s" "now (drainLoop s) = now s"
  by (simp_all add: drainLoop_def drainFinally_fields split: list.splits)

lemma drain_fields:
  "arrivals (drain s) = arrivals s" "seen (drain s) = seen s"
  "sbuffer (drain s) = sbuffer s" "now (drain s) = now s"
  by (simp_all add: drain_def drainLoop_fields)

lemma enqueue_fields:
  "arrivals (enqueue u s) = arrivals s @ [u]" "seen (enqueue u s) = seen s"
  "sbuffer (enqueue u s) = sbuffer s" "now (enqueue u s) = now s"
  by (simp_all add: enqueue_def drain_fields)

lemma schedule_fields:
  "arrivals (schedule s u) = arrivals s @ fst (uniqueUrls (seen s) [u])"
  "seen (schedule s u) = insert u (seen s)"
  "sbuffer (schedule s u) = sbuffer s" "now (schedule s u) = now s"
  by (auto simp: schedule_def admit_def enqueue_fields)

lemma uniqueUrls_Cons:
  "fst (uniqueUrls sn (u # us)) = fst (uniqueUrls sn [u]) @ fst (uniqueUrls (insert u sn) us)"
  by (simp add: uniqueUrls_step insert_absorb del: uniqueUrls.simps(2))

lemma foldl_schedule:
  "arrivals (foldl schedule s urls) = arrivals s @ fst (uniqueUrls (seen s) urls)
   \<and> seen (foldl schedule s urls) = seen s \<union> set urls
   \<and> sbuffer (foldl schedule s urls) = sbuffer s"
proof (induction urls arbitrary: s)
  case Nil
  show ?case by simp
next
  case (Cons u us)
  show ?case using Cons.IH [of "schedule s u"]
    by (simp add: schedule_fields uniqueUrls_Cons [of "seen s" u us] del: uniqueUrls.simps)
qed

lemma admit_eq: "admit sn u = (u \<notin> sn, insert u sn)"
  by (auto simp: admit_def)

lemma onData_fields:
  "arrivals (onData chunk s) = arrivals s @ fst (uniqueUrls (seen s) (parseUrls (sbuffer s @ chunk)))"
  "seen (onData chunk s) = seen s \<union> set (parseUrls (sbuffer s @ chunk))"
  using foldl_schedule [of "s\<lparr>sbuffer := sbuffer s @ chunk\<rparr>" "parseUrls (sbuffer s @ chunk)"]
  by (simp_all add: onData_def Let_def)

lemma onEnd_fields: "arrivals (onEnd s) = arrivals s" "seen (onEnd s) = seen s"
  by (simp_all add: onEnd_def Let_def)

lemma onComplete_fields:
  "arrivals (onComplete w h secret u s) = arrivals s" "seen (onComplete w h secret u s) = seen s"
  by (simp_all add: onComplete_def Let_def drainFinally_fields split: prod.splits sum.splits)

lemma sstep_seen: "sstep w h secret s ev = Some s1 \<Longrightarrow> seen s \<subseteq> seen s1"
  by (cases ev)
    (auto simp: sstep_def onData_fields onEnd_fields onComplete_fields drainLoop_fields
      split: if_splits worker.splits)

lemma srun_seen: "srun w h secret s evs = Some s1 \<Longrightarrow> seen s \<subseteq> seen s1"
proof (induction evs arbitrary: s)
  case Nil
  then show ?case by simp
next
  case (Cons ev evs)
  then show ?case
    by (fastforce split: option.splits dest: sstep_seen)
qed


lemma dedupInv_onData: "dedupInv s \<Longrightarrow> dedupInv (onData chunk s)"
  by (auto simp: dedupInv_def onData_fields uniqueUrls_fst set_firstOccurrences
      distinct_firstOccurrences)

lemma dedupInv_chunks: "dedupInv s \<Longrightarrow> dedupInv (foldl (\<lambda>s c. onData c s) s chunks)"
  by (induction chunks arbitrary: s) (simp_all add: dedupInv_onData)

lemma distinct_streamUrls: "distinct (streamUrls chunks)"
proof -
  have "dedupInv initStream" by (simp add: dedupInv_def initStream_def)
  from dedupInv_chunks [OF this, of chunks] show ?thesis
    by (simp add: streamUrls_def dedupInv_def)
qed

lemma mainFile_ReadOk:
  "mainFile w h secret path (ReadOk text) = processAll w h secret (firstOccurrences (parseUrls text)) initIo"
  using uniqueUrls_fst [of "{}" "parseUrls text"]
  by (cases "uniqueUrls {} (parseUrls text)") (simp add: mainFile_def Let_def)

text \<open>
  Claim C6. The test \<open>admit\<close> returns true for a URL that is not in the set, and records
  it; for a URL in the set it returns false. In the file mode the URLs processed are those
  of the text without repetitions, in the order of their first occurrences. In the stream
  mode a chunk hands to \<open>enqueue\<close> the URLs of the scanned buffer that are new, in the order
  of their first occurrences, and no URL is handed over twice in a run, whatever the
  chunks. The set \<open>seen\<close> only grows.
\<close>

theorem dedup_admits_once:
  "admit sn u = (u \<notin> sn, insert u sn)
   \<and> fst (admit (insert u sn) u) = False
   \<and> fst (uniqueUrls sn urls) = firstOccurrences (filter (\<lambda>u. u \<notin> sn) urls)
   \<and> snd (uniqueUrls sn urls) = sn \<union> set urls
   \<and> distinct (fst (uniqueUrls sn urls))
   \<and> arrivals (onData chunk s) =
       arrivals s @ firstOccurrences (filter (\<lambda>u. u \<notin> seen s) (parseUrls (sbuffer s @ chunk)))
   \<and> seen (onData chunk s) = seen s \<union> set (parseUrls (sbuffer s @ chunk))
   \<and> distinct (streamUrls chunks)
   \<and> (srun w h secret s evs = Some s1 \<longrightarrow> seen s \<subseteq> seen s1)
   \<and> mainFile w h secret path (ReadOk text) =
       processAll w h secret (firstOccurrences (parseUrls text)) initIo"
  using srun_seen [of w h secret s evs s1]
  by (simp add: admit_eq uniqueUrls_fst uniqueUrls_snd distinct_firstOccurrences onData_fields
      distinct_streamUrls mainFile_ReadOk)

text \<open>
  The theorem at a text with the same URL in two groups, and at a run of the stream mode
  with one chunk.
\<close>

lemma parse_two_groups:
  "parseUrls ''[www.a.com] [www.b.com] [www.a.com]'' = [''www.a.com'', ''www.b.com'', ''www.a.com'']"
  by code_simp

theorem dedup_admits_once_witness:
  "fst (uniqueUrls {} (parseUrls ''[www.a.com] [www.b.com] [www.a.com]'')) = [''www.a.com'', ''www.b.com'']
   \<and> srun failingWorld sampleHelpers None initStream [Data ''[www.a.com]''] = Some (onData ''[www.a.com]'' initStream)
   \<and> seen initStream \<subseteq> seen (onData ''[www.a.com]'' initStream)"
proof -
  note t = dedup_admits_once [of "{}" "[]" "parseUrls ''[www.a.com] [www.b.com] [www.a.com]''" "[]"
      initStream "[]" failingWorld sampleHelpers None "[Data ''[www.a.com]'']" "onData ''[www.a.com]'' initStream"
      "[]" "[]"]
  from t have "fst (uniqueUrls {} (parseUrls ''[www.a.com] [www.b.com] [www.a.com]'')) =
      firstOccurrences (filter (\<lambda>u. u \<notin> {}) (parseUrls ''[www.a.com] [www.b.com] [www.a.com]''))"
    by (elim conjE)
  then have 1: "fst (uniqueUrls {} (parseUrls ''[www.a.com] [www.b.com] [www.a.com]'')) = [''www.a.com'', ''www.b.com'']"
    by (simp add: parse_two_groups)
  have 2: "srun failingWorld sampleHelpers None initStream [Data ''[www.a.com]''] = Some (onData ''[www.a.com]'' initStream)"
    by (simp add: sstep_def initStream_def)
  from t have "srun failingWorld sampleHelpers None initStream [Data ''[www.a.com]''] = Some (onData ''[www.a.com]'' initStream)
      \<longrightarrow> seen initStream \<subseteq> seen (onData ''[www.a.com]'' initStream)"
    by (elim conjE)
  from this 2 have 3: "seen initStream \<subseteq> seen (onData ''[www.a.com]'' initStream)"
    by (rule mp)
  from 1 2 3 show ?thesis by (intro conjI)
qed


section \<open>The bracket scanner\<close>

lemma scan_Nil [simp]: "scan st [] = st"
  by (simp add: scan_def)

lemma scan_Cons: "scan st (c # t) = scan (parseStep st c) t"
  by (simp add: scan_def)

lemma scan_append: "scan st (t @ u) = scan (scan st t) u"
  by (simp add: scan_def)

lemma scan_snoc: "scan st (t @ [c]) = parseStep (scan st t) c"
  by (simp add: scan_def)

lemma lastChar_step: "lastChar (parseStep st c) = [c]"
  by (simp add: parseStep_def Let_def)

lemma lastChar_scan: "lastChar (scan st t) = (if t = [] then lastChar st else [last t])"
proof (induction t rule: rev_induct)
  case Nil
  show ?case by simp
next
  case (snoc c t)
  show ?case by (simp add: scan_snoc lastChar_step)
qed

lemma step_plain:
  "c \<noteq> CHR ''['' \<Longrightarrow> c \<noteq> CHR '']'' \<Longrightarrow>
   parseStep st c = (if depth st \<ge> 1 then st\<lparr>buffer := buffer st @ [c], lastChar := [c]\<rparr>
                     else st\<lparr>lastChar := [c]\<rparr>)"
  by (simp add: parseStep_def Let_def)

lemma step_escaped:
  "c = CHR ''['' \<or> c = CHR '']'' \<Longrightarrow> lastChar st = [bslash] \<Longrightarrow>
   parseStep st c = (if depth st \<ge> 1 then st\<lparr>buffer := buffer st @ [c], lastChar := [c]\<rparr>
                     else st\<lparr>lastChar := [c]\<rparr>)"
  by (auto simp: parseStep_def Let_def)

lemma step_open:
  "lastChar st \<noteq> [bslash] \<Longrightarrow>
   parseStep st CHR ''['' =
     st\<lparr>depth := depth st + 1, buffer := (if depth st = 0 then [] else buffer st), lastChar := ''[''\<rparr>"
  by (simp add: parseStep_def Let_def)

lemma step_close:
  "lastChar st \<noteq> [bslash] \<Longrightarrow>
   parseStep st CHR '']'' =
     (if depth st = 0 then st\<lparr>lastChar := '']''\<rparr>
      else if depth st = 1
        then st\<lparr>depth := 0, results := results st @ emission (buffer st), lastChar := '']''\<rparr>
        else st\<lparr>depth := depth st - 1, lastChar := '']''\<rparr>)"
  by (simp add: parseStep_def Let_def pushLast_lastUrl)

text \<open>
  The model gives what the tests of the repository expect of \<open>parseUrls\<close>, and the two
  URLs that the test of the file mode expects for its input with a repeated URL.
\<close>

lemma parser_tests:
  "parseUrls ''bla bla asdfasdf www.google.com'' = []"
  "parseUrls ''here, [ www.google.com ] fg'' = [''www.google.com'']"
  "parseUrls ''[bla www.first.com asdfasdf www.second.com truc]'' = [''www.second.com'']"
  "parseUrls ''multiple levels[ [www.first.com] www.second.com]'' = [''www.second.com'']"
  "parseUrls ''unclosed [ www.google.com '' = []"
  "parseUrls (''asdf '' @ [bslash] @ ''[www.google.com]'') = []"
  by code_simp+

lemma cli_test_input:
  "firstOccurrences (parseUrls (''Text before [ www.google.com ] and after'' @ [CHR 0x0A]
     @ ''Another line [ www.ingemark.com ]'' @ [CHR 0x0A] @ ''Duplicate again [ www.google.com ]''))
   = [''www.google.com'', ''www.ingemark.com'']"
  by code_simp

text \<open>
  Claim C2, as amended. At every position of every text, a bracket is structural unless
  the character directly before it is a backslash, whatever stands before that
  backslash. After a backslash the bracket is a literal character: the depth and the
  results stay as they are, and the bracket is appended to the buffer when the depth is
  at least 1. A structural opening bracket raises the depth by one (and empties the
  buffer at depth 0); a structural closing bracket lowers the depth by one, or changes
  nothing at depth 0; neither is appended to the buffer.
\<close>

theorem bracket_structural_unless_after_backslash:
  "(c = CHR ''['' \<or> c = CHR '']'') \<longrightarrow>
   (let st = scan initState pre; st' = scan initState (pre @ [c])
    in if pre \<noteq> [] \<and> last pre = bslash
       then depth st' = depth st \<and> results st' = results st
            \<and> buffer st' = (if depth st \<ge> 1 then buffer st @ [c] else buffer st)
       else if c = CHR ''[''
       then depth st' = depth st + 1 \<and> results st' = results st
            \<and> buffer st' = (if depth st = 0 then [] else buffer st)
       else depth st' = depth st - 1 \<and> buffer st' = buffer st
            \<and> results st' = (if depth st = 1 then results st @ emission (buffer st) else results st))"
proof
  assume c: "c = CHR ''['' \<or> c = CHR '']''"
  have l: "lastChar (scan initState pre) = (if pre = [] then [] else [last pre])"
    by (simp add: lastChar_scan initState_def)
  show "let st = scan initState pre; st' = scan initState (pre @ [c])
    in if pre \<noteq> [] \<and> last pre = bslash
       then depth st' = depth st \<and> results st' = results st
            \<and> buffer st' = (if depth st \<ge> 1 then buffer st @ [c] else buffer st)
       else if c = CHR ''[''
       then depth st' = depth st + 1 \<and> results st' = results st
            \<and> buffer st' = (if depth st = 0 then [] else buffer st)
       else depth st' = depth st - 1 \<and> buffer st' = buffer st
            \<and> results st' = (if depth st = 1 then results st @ emission (buffer st) else results st)"
  proof (cases "pre \<noteq> [] \<and> last pre = bslash")
    case True
    with l have "lastChar (scan initState pre) = [bslash]" by simp
    from step_escaped [OF c this] True show ?thesis
      by (simp add: scan_snoc Let_def)
  next
    case False
    with l have n: "lastChar (scan initState pre) \<noteq> [bslash]" by auto
    show ?thesis
    proof (cases "c = CHR ''[''")
      case True
      with step_open [OF n] False show ?thesis
        by (simp add: scan_snoc Let_def)
    next
      case f: False
      with c have "c = CHR '']''" by simp
      with step_close [OF n] False show ?thesis
        by (simp add: scan_snoc Let_def)
    qed
  qed
qed

text \<open>The theorem at the closing bracket of \<open>[www.a.com]\<close>.\<close>

lemma scan_open_www: "scan initState ''[www.a.com'' =
    \<lparr>results = [], depth = 1, buffer = ''www.a.com'', lastChar = ''m''\<rparr>"
  by code_simp

lemma emission_www: "emission ''www.a.com'' = [''www.a.com'']"
  by code_simp

theorem bracket_structural_unless_after_backslash_witness:
  "depth (scan initState (''[www.a.com'' @ '']'')) = 0
   \<and> results (scan initState (''[www.a.com'' @ '']'')) = [''www.a.com'']"
proof -
  note t = bracket_structural_unless_after_backslash [of "CHR '']''" "''[www.a.com''"]
  have c: "CHR '']'' = CHR ''['' \<or> CHR '']'' = CHR '']''" by simp
  from t c have "let st = scan initState ''[www.a.com''; st' = scan initState (''[www.a.com'' @ '']'')
    in if ''[www.a.com'' \<noteq> [] \<and> last ''[www.a.com'' = bslash
       then depth st' = depth st \<and> results st' = results st
            \<and> buffer st' = (if depth st \<ge> 1 then buffer st @ '']'' else buffer st)
       else if CHR '']'' = CHR ''[''
       then depth st' = depth st + 1 \<and> results st' = results st
            \<and> buffer st' = (if depth st = 0 then [] else buffer st)
       else depth st' = depth st - 1 \<and> buffer st' = buffer st
            \<and> results st' = (if depth st = 1 then results st @ emission (buffer st) else results st)"
    by (rule mp)
  then show ?thesis
    by (simp add: scan_open_www emission_www Let_def)
qed

text \<open>
  Claim C2 as stated fails: the bracket after two backslashes is not structural. It
  leaves the depth as it is, and the group it would open emits nothing.
\<close>

theorem double_backslash_bracket_counterexample:
  "depth (scan initState ([bslash, bslash] @ ''['')) = depth (scan initState [bslash, bslash])
   \<and> parseUrls ([bslash, bslash] @ ''[www.a.com]'') = []
   \<and> parseUrls ''[www.a.com]'' = [''www.a.com'']"
  by code_simp

lemma noEsc_Cons: "noBracketAfterBackslash (a # s) \<Longrightarrow> noBracketAfterBackslash s"
  by (cases s) auto

lemma noEsc_append_right: "noBracketAfterBackslash (a @ b) \<Longrightarrow> noBracketAfterBackslash b"
  by (induction a) (auto dest: noEsc_Cons)

lemma noEsc_append_left: "noBracketAfterBackslash (a @ b) \<Longrightarrow> noBracketAfterBackslash a"
proof (induction a rule: noBracketAfterBackslash.induct)
  case (1 x y r)
  then show ?case by simp
next
  case (2 x)
  then show ?case by simp
next
  case 3
  then show ?case by simp
qed

lemma noEsc_bracket:
  "noBracketAfterBackslash (a @ c # b) \<Longrightarrow> c = CHR ''['' \<or> c = CHR '']'' \<Longrightarrow> a \<noteq> [] \<Longrightarrow> last a \<noteq> bslash"
proof (induction a rule: noBracketAfterBackslash.induct)
  case (1 x y r)
  then show ?case by simp
next
  case (2 x)
  then show ?case by auto
next
  case 3
  then show ?case by simp
qed

lemma noEsc_single: "noBracketAfterBackslash (l @ c # b) \<Longrightarrow> c = CHR ''['' \<or> c = CHR '']'' \<Longrightarrow> l \<noteq> [bslash]"
  using noEsc_bracket [of l c b] by auto

lemma lastOf_Nil [simp]: "lastOf l [] = l"
  by (simp add: lastOf_def)

lemma lastOf_append: "lastOf l (t @ u) = lastOf (lastOf l t) u"
  by (simp add: lastOf_def)

lemma noEsc_lastOf: "noBracketAfterBackslash (l @ t @ u) \<Longrightarrow> noBracketAfterBackslash (lastOf l t @ u)"
proof (cases "t = []")
  case True
  then show "noBracketAfterBackslash (l @ t @ u) \<Longrightarrow> ?thesis" by simp
next
  case False
  assume a: "noBracketAfterBackslash (l @ t @ u)"
  from False have "l @ t @ u = (l @ butlast t) @ ([last t] @ u)" by simp
  with a have "noBracketAfterBackslash ((l @ butlast t) @ ([last t] @ u))" by simp
  from noEsc_append_right [OF this] False show ?thesis by (simp add: lastOf_def)
qed

lemma noEsc_prefix: "noBracketAfterBackslash (l @ t @ u) \<Longrightarrow> noBracketAfterBackslash (l @ t)"
  using noEsc_append_left [of "l @ t" u] by simp

lemma inGroup_list:
  "(\<And>it. it \<in> set its \<Longrightarrow> inGroup it) \<Longrightarrow> depth st \<ge> 1 \<Longrightarrow> list_all plainChars its \<Longrightarrow>
   noBracketAfterBackslash (lastChar st @ renderAll its) \<Longrightarrow>
   scan st (renderAll its) =
     st\<lparr>buffer := buffer st @ flattenAll its, lastChar := lastOf (lastChar st) (renderAll its)\<rparr>"
proof (induction its arbitrary: st)
  case Nil
  show ?case by (simp add: renderAll_def flattenAll_def)
next
  case (Cons it its)
  let ?st1 = "st\<lparr>buffer := buffer st @ flatten it, lastChar := lastOf (lastChar st) (render it)\<rparr>"
  have r: "renderAll (it # its) = render it @ renderAll its"
    by (simp add: renderAll_def)
  from Cons.prems(4) have ne: "noBracketAfterBackslash (lastChar st @ render it @ renderAll its)"
    by (simp add: r)
  from Cons.prems(1) have "inGroup it" by simp
  with Cons.prems(2,3) noEsc_prefix [OF ne] have 1: "scan st (render it) = ?st1"
    by (simp add: inGroup_def)
  have "scan ?st1 (renderAll its) =
     ?st1\<lparr>buffer := buffer ?st1 @ flattenAll its, lastChar := lastOf (lastChar ?st1) (renderAll its)\<rparr>"
  proof (rule Cons.IH)
    show "\<And>x. x \<in> set its \<Longrightarrow> inGroup x" using Cons.prems(1) by simp
    show "1 \<le> depth ?st1" using Cons.prems(2) by simp
    show "list_all plainChars its" using Cons.prems(3) by simp
    show "noBracketAfterBackslash (lastChar ?st1 @ renderAll its)"
      using noEsc_lastOf [OF ne] by simp
  qed
  with 1 show ?case
    by (simp add: r scan_append flattenAll_def lastOf_append)
qed

lemma inGroup_all: "inGroup it"
proof (induction it)
  case (Chr c)
  show ?case
    by (auto simp: inGroup_def scan_Cons step_plain lastOf_def)
next
  case (Grp body)
  show ?case
    unfolding inGroup_def
  proof (intro allI impI)
    fix st :: pstate
    assume d: "1 \<le> depth st" and p: "plainChars (Grp body)"
      and ne: "noBracketAfterBackslash (lastChar st @ render (Grp body))"
    let ?rb = "renderAll body"
    have r: "render (Grp body) = ''['' @ ?rb @ '']''" by (simp add: renderAll_def)
    from ne have ne1: "noBracketAfterBackslash (lastChar st @ CHR ''['' # (?rb @ '']''))"
      by (simp add: renderAll_def)
    have l: "lastChar st \<noteq> [bslash]"
      by (rule noEsc_single [OF ne1]) simp
    let ?st1 = "st\<lparr>depth := depth st + 1, lastChar := ''[''\<rparr>"
    from d step_open [OF l] have 1: "parseStep st CHR ''['' = ?st1"
      by simp
    from noEsc_append_right [OF ne1] have ne2: "noBracketAfterBackslash (''['' @ ?rb @ '']'')" by simp
    let ?st2 = "?st1\<lparr>buffer := buffer ?st1 @ flattenAll body, lastChar := lastOf (lastChar ?st1) ?rb\<rparr>"
    have 2: "scan ?st1 ?rb = ?st2"
    proof (rule inGroup_list)
      show "\<And>it. it \<in> set body \<Longrightarrow> inGroup it" using Grp.IH by simp
      show "1 \<le> depth ?st1" by simp
      show "list_all plainChars body" using p by simp
      show "noBracketAfterBackslash (lastChar ?st1 @ ?rb)" using noEsc_prefix [OF ne2] by simp
    qed
    from noEsc_lastOf [OF ne2] have "noBracketAfterBackslash (lastOf ''['' ?rb @ CHR '']'' # [])" by simp
    from noEsc_single [OF this] have l2: "lastChar ?st2 \<noteq> [bslash]" by simp
    from d step_close [OF l2]
    have 3: "parseStep ?st2 CHR '']'' = ?st2\<lparr>depth := depth st, lastChar := '']''\<rparr>"
      by simp
    have 4: "scan st (render (Grp body)) = parseStep (scan (parseStep st CHR ''['') ?rb) CHR '']''"
      by (simp add: renderAll_def scan_Cons scan_snoc)
    have 5: "flatten (Grp body) = flattenAll body"
      by (simp add: flattenAll_def)
    have 6: "lastOf (lastChar st) (render (Grp body)) = '']''"
      by (simp add: lastOf_def)
    show "scan st (render (Grp body)) =
        st\<lparr>buffer := buffer st @ flatten (Grp body), lastChar := lastOf (lastChar st) (render (Grp body))\<rparr>"
      unfolding 4 1 2 3 5 6 by simp
  qed
qed

lemma topLevel:
  "depth st = 0 \<Longrightarrow> list_all plainChars its \<Longrightarrow> noBracketAfterBackslash (lastChar st @ renderAll its) \<Longrightarrow>
   results (scan st (renderAll its)) = results st @ concat (map emission (outerGroups its))
   \<and> depth (scan st (renderAll its)) = 0"
proof (induction its arbitrary: st)
  case Nil
  then show ?case by (simp add: renderAll_def)
next
  case (Cons it its)
  have r: "renderAll (it # its) = render it @ renderAll its"
    by (simp add: renderAll_def)
  from Cons.prems(3) have ne: "noBracketAfterBackslash (lastChar st @ render it @ renderAll its)"
    by (simp add: r)
  from Cons.prems(2) have pl: "list_all plainChars its" and pi: "plainChars it" by simp_all
  show ?case
  proof (cases it)
    case (Chr c)
    let ?st1 = "st\<lparr>lastChar := [c]\<rparr>"
    from pi Chr Cons.prems(1) have 1: "scan st (render it) = ?st1"
      by (simp add: scan_Cons step_plain)
    from noEsc_lastOf [OF ne] Chr have "noBracketAfterBackslash (lastChar ?st1 @ renderAll its)"
      by (simp add: lastOf_def)
    from Cons.IH [OF _ pl this] Cons.prems(1) have
      "results (scan ?st1 (renderAll its)) = results ?st1 @ concat (map emission (outerGroups its))
       \<and> depth (scan ?st1 (renderAll its)) = 0"
      by simp
    then show ?thesis
      unfolding r scan_append 1 using Chr by simp
  next
    case (Grp body)
    let ?rb = "renderAll body"
    have rg: "render it = ''['' @ ?rb @ '']''" using Grp by (simp add: renderAll_def)
    from ne have ne1: "noBracketAfterBackslash (lastChar st @ CHR ''['' # (?rb @ '']'' @ renderAll its))"
      by (simp add: rg)
    have l: "lastChar st \<noteq> [bslash]"
      by (rule noEsc_single [OF ne1]) simp
    let ?st1 = "st\<lparr>depth := 1, buffer := [], lastChar := ''[''\<rparr>"
    from Cons.prems(1) step_open [OF l] have 1: "parseStep st CHR ''['' = ?st1"
      by simp
    from noEsc_append_right [OF ne1] have ne2: "noBracketAfterBackslash (''['' @ ?rb @ ('']'' @ renderAll its))"
      by simp
    let ?st2 = "?st1\<lparr>buffer := buffer ?st1 @ flattenAll body, lastChar := lastOf (lastChar ?st1) ?rb\<rparr>"
    have 2: "scan ?st1 ?rb = ?st2"
    proof (rule inGroup_list)
      show "\<And>x. x \<in> set body \<Longrightarrow> inGroup x" by (rule inGroup_all)
      show "1 \<le> depth ?st1" by simp
      show "list_all plainChars body" using pi Grp by simp
      show "noBracketAfterBackslash (lastChar ?st1 @ ?rb)" using noEsc_prefix [OF ne2] by simp
    qed
    from noEsc_lastOf [OF ne2]
    have ne3: "noBracketAfterBackslash (lastOf ''['' ?rb @ CHR '']'' # renderAll its)" by simp
    from noEsc_single [OF ne3] have l2: "lastChar ?st2 \<noteq> [bslash]" by simp
    let ?st3 = "?st2\<lparr>depth := 0, results := results st @ emission (flattenAll body), lastChar := '']''\<rparr>"
    from step_close [OF l2] have 3: "parseStep ?st2 CHR '']'' = ?st3"
      by simp
    have 4: "scan st (render it) = parseStep (scan (parseStep st CHR ''['') ?rb) CHR '']''"
      by (simp add: rg scan_Cons scan_snoc)
    have 5: "scan st (render it) = ?st3"
      unfolding 4 1 2 3 by simp
    have "noBracketAfterBackslash (lastOf (lastOf ''['' ?rb) '']'' @ renderAll its)"
      using noEsc_lastOf [of "lastOf ''['' ?rb" "'']''" "renderAll its"] ne3 by simp
    then have "noBracketAfterBackslash (lastChar ?st3 @ renderAll its)"
      by (simp add: lastOf_def)
    from Cons.IH [OF _ pl this] have
      "results (scan ?st3 (renderAll its)) = results ?st3 @ concat (map emission (outerGroups its))
       \<and> depth (scan ?st3 (renderAll its)) = 0"
      by simp
    then show ?thesis
      unfolding r scan_append 5 using Grp by (simp add: flattenAll_def)
  qed
qed

lemma parseUrls_balanced:
  "list_all plainChars its \<Longrightarrow> noBracketAfterBackslash (renderAll its) \<Longrightarrow>
   parseUrls (renderAll its) = concat (map emission (outerGroups its))"
  using topLevel [of initState its] by (simp add: parseUrls_def initState_def)

lemma concat_emissions:
  "concat (map emission bs) =
     map (\<lambda>g. last (urlTokens g)) (filter (\<lambda>g. urlTokens g \<noteq> []) bs)"
  by (induction bs) (simp_all add: emission_urlTokens)

lemma step_results:
  "results (parseStep st c) =
     results st @ (if c = CHR '']'' \<and> lastChar st \<noteq> [bslash] \<and> depth st = 1
                   then emission (buffer st) else [])"
proof (cases "c = CHR '']'' \<and> lastChar st \<noteq> [bslash]")
  case True
  then show ?thesis using step_close [of st] by simp
next
  case False
  show ?thesis
  proof (cases "c = CHR ''['' \<and> lastChar st \<noteq> [bslash]")
    case True
    then show ?thesis using step_open [of st] by simp
  next
    case f: False
    have "parseStep st c = (if depth st \<ge> 1 then st\<lparr>buffer := buffer st @ [c], lastChar := [c]\<rparr>
                     else st\<lparr>lastChar := [c]\<rparr>)"
    proof (cases "c = CHR ''['' \<or> c = CHR '']''")
      case True
      with False f have "lastChar st = [bslash]" by auto
      from step_escaped [OF True this] show ?thesis .
    next
      case False
      then show ?thesis by (simp add: step_plain)
    qed
    with False show ?thesis by auto
  qed
qed

text \<open>
  Claim C1, as amended. The brackets that open and close groups are those that do not
  come directly after a backslash. In every state and at every character, the results
  grow only when such a closing bracket closes an outermost group, and then by at most
  one URL: by nothing when the text gathered for the group holds no URL-like token, and
  by the last of its URL-like tokens otherwise. For a text with balanced brackets, none
  of them directly after a backslash, the text gathered for each outermost group is its
  flattened text, so the URLs returned are the last tokens of the outermost groups that
  hold a token, in document order, and their number is the number of these groups.
\<close>

theorem one_candidate_per_closed_group:
  "results (parseStep st c) =
     results st @ (if c = CHR '']'' \<and> lastChar st \<noteq> [bslash] \<and> depth st = 1
                      \<and> urlTokens (buffer st) \<noteq> []
                   then [last (urlTokens (buffer st))] else [])
   \<and> (list_all plainChars its \<and> noBracketAfterBackslash (renderAll its) \<longrightarrow>
        parseUrls (renderAll its) =
          map (\<lambda>g. last (urlTokens g)) (filter (\<lambda>g. urlTokens g \<noteq> []) (outerGroups its))
        \<and> length (parseUrls (renderAll its)) =
            length (filter (\<lambda>g. urlTokens g \<noteq> []) (outerGroups its)))"
proof (intro conjI impI)
  show "results (parseStep st c) =
     results st @ (if c = CHR '']'' \<and> lastChar st \<noteq> [bslash] \<and> depth st = 1
                      \<and> urlTokens (buffer st) \<noteq> []
                   then [last (urlTokens (buffer st))] else [])"
    by (simp add: step_results emission_urlTokens)
next
  assume a: "list_all plainChars its \<and> noBracketAfterBackslash (renderAll its)"
  then have "parseUrls (renderAll its) = concat (map emission (outerGroups its))"
    by (simp add: parseUrls_balanced)
  then show e: "parseUrls (renderAll its) =
      map (\<lambda>g. last (urlTokens g)) (filter (\<lambda>g. urlTokens g \<noteq> []) (outerGroups its))"
    by (simp add: concat_emissions)
  show "length (parseUrls (renderAll its)) =
      length (filter (\<lambda>g. urlTokens g \<noteq> []) (outerGroups its))"
    by (simp add: e)
qed

text \<open>The theorem at the text \<open>hi [www.a.com [www.b.com]][no url]\<close>.\<close>

lemma sampleItems_ok: "list_all plainChars sampleItems \<and> noBracketAfterBackslash (renderAll sampleItems)"
  by code_simp

lemma sampleItems_render: "renderAll sampleItems = ''hi [www.a.com [www.b.com]][no url]''"
  by code_simp

lemma sampleItems_groups: "outerGroups sampleItems = [''www.a.com www.b.com'', ''no url'']"
  by code_simp

lemma sampleItems_tokens:
  "urlTokens ''www.a.com www.b.com'' = [''www.a.com'', ''www.b.com''] \<and> urlTokens ''no url'' = []"
  by code_simp

lemma sampleItems_last:
  "map (\<lambda>g. last (urlTokens g)) (filter (\<lambda>g. urlTokens g \<noteq> []) [''www.a.com www.b.com'', ''no url''])
     = [''www.b.com'']"
  by code_simp

lemma sampleItems_count:
  "length (filter (\<lambda>g. urlTokens g \<noteq> []) [''www.a.com www.b.com'', ''no url'']) = 1"
  by code_simp

theorem one_candidate_per_closed_group_witness:
  "list_all plainChars sampleItems \<and> noBracketAfterBackslash (renderAll sampleItems)
   \<and> outerGroups sampleItems = [''www.a.com www.b.com'', ''no url'']
   \<and> urlTokens ''www.a.com www.b.com'' = [''www.a.com'', ''www.b.com'']
   \<and> urlTokens ''no url'' = []
   \<and> parseUrls ''hi [www.a.com [www.b.com]][no url]'' = [''www.b.com'']
   \<and> length (parseUrls ''hi [www.a.com [www.b.com]][no url]'') = 1"
proof -
  note t = one_candidate_per_closed_group [of initState "CHR ''x''" sampleItems]
  from t have "list_all plainChars sampleItems \<and> noBracketAfterBackslash (renderAll sampleItems) \<longrightarrow>
        parseUrls (renderAll sampleItems) =
          map (\<lambda>g. last (urlTokens g)) (filter (\<lambda>g. urlTokens g \<noteq> []) (outerGroups sampleItems))
        \<and> length (parseUrls (renderAll sampleItems)) =
            length (filter (\<lambda>g. urlTokens g \<noteq> []) (outerGroups sampleItems))"
    by (rule conjunct2)
  from this sampleItems_ok have
    "parseUrls (renderAll sampleItems) =
          map (\<lambda>g. last (urlTokens g)) (filter (\<lambda>g. urlTokens g \<noteq> []) (outerGroups sampleItems))
        \<and> length (parseUrls (renderAll sampleItems)) =
            length (filter (\<lambda>g. urlTokens g \<noteq> []) (outerGroups sampleItems))"
    by (rule mp)
  note u = this [unfolded sampleItems_render sampleItems_groups sampleItems_last sampleItems_count]
  from sampleItems_ok sampleItems_groups sampleItems_tokens u show ?thesis by blast
qed

text \<open>
  Claim C1 as stated fails: in the text \<open>\\[www.a.com]\<close> the brackets are balanced and
  non-escaped by the rule of the specification, the backslash before the opening
  bracket being escaped itself; its one outermost group holds a URL-like token, and
  yet nothing is emitted.
\<close>

theorem escaped_backslash_group_counterexample:
  "list_all plainChars escapedBackslashItems
   \<and> renderAll escapedBackslashItems = [bslash, bslash] @ ''[www.a.com]''
   \<and> nonEscapedBrackets (renderAll escapedBackslashItems)
   \<and> outerGroups escapedBackslashItems = [''www.a.com'']
   \<and> urlTokens ''www.a.com'' = [''www.a.com'']
   \<and> parseUrls (renderAll escapedBackslashItems) = []"
  by code_simp


section \<open>Fetching with one retry, and how a run ends\<close>

lemma attempt_eq:
  "attempt w u s =
     ((case failure (w (calls s)) of
         Some e \<Rightarrow> Inl e
       | None \<Rightarrow> Inr (case w (calls s) of Resolved res \<Rightarrow> res)),
      s\<lparr>calls := calls s + 1, trace := trace s @ [Fetch (addProtocol u)]\<rparr>)"
  by (simp add: attempt_def fetch_def failure_def split: fetchOutcome.splits)

lemma attempt_fail:
  "failure (w (calls s)) = Some e \<Longrightarrow>
   attempt w u s = (Inl e, s\<lparr>calls := calls s + 1, trace := trace s @ [Fetch (addProtocol u)]\<rparr>)"
  by (simp add: attempt_eq)

lemma attempt_ok:
  "w (calls s) = Resolved res \<Longrightarrow> ok res \<Longrightarrow>
   attempt w u s = (Inr res, s\<lparr>calls := calls s + 1, trace := trace s @ [Fetch (addProtocol u)]\<rparr>)"
  by (simp add: attempt_eq failure_def)

lemma fetchWithRetry_first_ok:
  "w (calls s) = Resolved res \<Longrightarrow> ok res \<Longrightarrow>
   fetchWithRetry w u s =
     (Some res, s\<lparr>calls := calls s + 1, trace := trace s @ [Fetch (addProtocol u)]\<rparr>)"
  by (simp add: fetchWithRetry_def attempt_ok)

lemma fetchWithRetry_retry_ok:
  "failure (w (calls s)) = Some e1 \<Longrightarrow> w (calls s + 1) = Resolved res \<Longrightarrow> ok res \<Longrightarrow>
   fetchWithRetry w u s =
     (Some res, s\<lparr>calls := calls s + 2,
        trace := trace s @ [Fetch (addProtocol u), Sleep 60000, Fetch (addProtocol u)]\<rparr>)"
proof -
  assume f: "failure (w (calls s)) = Some e1" and r: "w (calls s + 1) = Resolved res" and o: "ok res"
  let ?s1 = "s\<lparr>calls := calls s + 1, trace := trace s @ [Fetch (addProtocol u)]\<rparr>"
  have a1: "attempt w u s = (Inl e1, ?s1)" using f by (simp add: attempt_fail)
  have "w (calls (sleep 60000 ?s1)) = Resolved res" using r by (simp add: sleep_def)
  from attempt_ok [where w = w and s = "sleep 60000 ?s1" and u = u, OF this o] have a2: "attempt w u (sleep 60000 ?s1) =
      (Inr res, s\<lparr>calls := calls s + 2,
        trace := trace s @ [Fetch (addProtocol u), Sleep 60000, Fetch (addProtocol u)]\<rparr>)"
    by (simp add: sleep_def)
  show ?thesis by (simp only: fetchWithRetry_def a1 a2 prod.case sum.case)
qed

lemma fetchWithRetry_both_fail:
  "failure (w (calls s)) = Some e1 \<Longrightarrow> failure (w (calls s + 1)) = Some e2 \<Longrightarrow>
   fetchWithRetry w u s =
     (None, s\<lparr>calls := calls s + 2,
        trace := trace s @ [Fetch (addProtocol u), Sleep 60000, Fetch (addProtocol u),
                            Stderr (FailedToFetch u e2)]\<rparr>)"
proof -
  assume f: "failure (w (calls s)) = Some e1" and f2: "failure (w (calls s + 1)) = Some e2"
  let ?s1 = "s\<lparr>calls := calls s + 1, trace := trace s @ [Fetch (addProtocol u)]\<rparr>"
  have a1: "attempt w u s = (Inl e1, ?s1)" using f by (simp add: attempt_fail)
  have "failure (w (calls (sleep 60000 ?s1))) = Some e2" using f2 by (simp add: sleep_def)
  from attempt_fail [where w = w and s = "sleep 60000 ?s1" and u = u, OF this] have a2: "attempt w u (sleep 60000 ?s1) =
      (Inl e2, s\<lparr>calls := calls s + 2,
        trace := trace s @ [Fetch (addProtocol u), Sleep 60000, Fetch (addProtocol u)]\<rparr>)"
    by (simp add: sleep_def)
  show ?thesis
    by (simp only: fetchWithRetry_def a1 a2 prod.case sum.case) (simp add: consoleError_def)
qed

lemma failure_None: "failure out = None \<Longrightarrow> \<exists>res. out = Resolved res \<and> ok res"
  by (cases out) (auto simp: failure_def split: if_splits)

lemma fetchWithRetry_retry_trace:
  "failure (w (calls s)) = Some e1 \<Longrightarrow>
   calls (snd (fetchWithRetry w u s)) = calls s + 2
   \<and> trace (snd (fetchWithRetry w u s)) =
       trace s @ [Fetch (addProtocol u), Sleep 60000, Fetch (addProtocol u)]
         @ (case failure (w (calls s + 1)) of Some e2 \<Rightarrow> [Stderr (FailedToFetch u e2)] | None \<Rightarrow> [])"
proof (cases "failure (w (calls s + 1))")
  case None
  assume f: "failure (w (calls s)) = Some e1"
  from failure_None [OF None] obtain res where "w (calls s + 1) = Resolved res" and "ok res"
    by blast
  from fetchWithRetry_retry_ok [OF f this] None show ?thesis by simp
next
  case (Some e2)
  assume f: "failure (w (calls s)) = Some e1"
  from fetchWithRetry_both_fail [OF f Some] Some show ?thesis by simp
qed

text \<open>
  The retry. When the first attempt fails (the \<open>fetch\<close> is rejected, or the status is not
  OK), \<open>fetchWithRetry\<close> waits 60 seconds and makes exactly one more attempt on the same
  URL, judged in the same way. When the second attempt fails too, \<open>processUrl\<close> writes
  one diagnostic and no record and returns, and the loop of the file mode goes on with
  the next URL after its pause. When the second attempt gets an OK response and the body
  of that response is read, \<open>processUrl\<close> writes one record with the URL, and the loop
  goes on in the same way.
\<close>

lemma retry_once_after_wait:
  "failure (w (calls s)) = Some e1 \<longrightarrow>
     calls (snd (fetchWithRetry w u s)) = calls s + 2
   \<and> trace (snd (fetchWithRetry w u s)) =
       trace s @ [Fetch (addProtocol u), Sleep 60000, Fetch (addProtocol u)]
         @ (case failure (w (calls s + 1)) of Some e2 \<Rightarrow> [Stderr (FailedToFetch u e2)] | None \<Rightarrow> [])
   \<and> (\<forall>e2. failure (w (calls s + 1)) = Some e2 \<longrightarrow>
        (let s' = s\<lparr>calls := calls s + 2,
                    trace := trace s @ [Fetch (addProtocol u), Sleep 60000, Fetch (addProtocol u),
                                        Stderr (FailedToFetch u e2)]\<rparr>
         in processUrl w h u secret s = (Inr (), s')
            \<and> processAll w h secret (u # us) s = processAll w h secret us (sleep 1000 s')))
   \<and> (\<forall>res html. w (calls s + 1) = Resolved res \<and> ok res \<and> body res = BodyText html \<longrightarrow>
        (let s' = s\<lparr>calls := calls s + 2,
                    trace := trace s @ [Fetch (addProtocol u), Sleep 60000, Fetch (addProtocol u),
                                        Stdout (makeOutput h u secret html)]\<rparr>
         in processUrl w h u secret s = (Inr (), s')
            \<and> url (makeOutput h u secret html) = u
            \<and> processAll w h secret (u # us) s = processAll w h secret us (sleep 1000 s')))"
proof (intro impI conjI allI)
  assume f1: "failure (w (calls s)) = Some e1"
  from fetchWithRetry_retry_trace [where w = w and s = s and u = u, OF f1]
  show "calls (snd (fetchWithRetry w u s)) = calls s + 2" by (rule conjunct1)
next
  assume f1: "failure (w (calls s)) = Some e1"
  from fetchWithRetry_retry_trace [where w = w and s = s and u = u, OF f1]
  show "trace (snd (fetchWithRetry w u s)) =
       trace s @ [Fetch (addProtocol u), Sleep 60000, Fetch (addProtocol u)]
         @ (case failure (w (calls s + 1)) of Some e2 \<Rightarrow> [Stderr (FailedToFetch u e2)] | None \<Rightarrow> [])"
    by (rule conjunct2)
next
  fix e2
  assume f1: "failure (w (calls s)) = Some e1" and f2: "failure (w (calls s + 1)) = Some e2"
  show "let s' = s\<lparr>calls := calls s + 2,
                    trace := trace s @ [Fetch (addProtocol u), Sleep 60000, Fetch (addProtocol u),
                                        Stderr (FailedToFetch u e2)]\<rparr>
         in processUrl w h u secret s = (Inr (), s')
            \<and> processAll w h secret (u # us) s = processAll w h secret us (sleep 1000 s')"
    by (simp add: Let_def processUrl_def fetchWithRetry_both_fail [OF f1 f2])
next
  fix res html
  assume f1: "failure (w (calls s)) = Some e1"
    and r: "w (calls s + 1) = Resolved res \<and> ok res \<and> body res = BodyText html"
  from r have r1: "w (calls s + 1) = Resolved res" and o: "ok res" and b: "body res = BodyText html"
    by simp_all
  show "let s' = s\<lparr>calls := calls s + 2,
                    trace := trace s @ [Fetch (addProtocol u), Sleep 60000, Fetch (addProtocol u),
                                        Stdout (makeOutput h u secret html)]\<rparr>
         in processUrl w h u secret s = (Inr (), s')
            \<and> url (makeOutput h u secret html) = u
            \<and> processAll w h secret (u # us) s = processAll w h secret us (sleep 1000 s')"
    by (simp add: Let_def processUrl_def fetchWithRetry_retry_ok [OF f1 r1 o] b consoleLog_def
        makeOutput_def)
qed

text \<open>
  Where every body that comes with an OK response can be read, a second attempt that
  succeeds always gives a record: there the retry is what the specification says.
\<close>

lemma retry_record_when_bodies_readable:
  "bodiesReadable w \<Longrightarrow> failure (w (calls s)) = Some e1 \<Longrightarrow> failure (w (calls s + 1)) = None \<Longrightarrow>
   \<exists>html. processUrl w h u secret s =
     (Inr (), s\<lparr>calls := calls s + 2,
        trace := trace s @ [Fetch (addProtocol u), Sleep 60000, Fetch (addProtocol u),
                            Stdout (makeOutput h u secret html)]\<rparr>)
     \<and> url (makeOutput h u secret html) = u"
proof -
  assume b: "bodiesReadable w" and f1: "failure (w (calls s)) = Some e1"
    and f2: "failure (w (calls s + 1)) = None"
  from failure_None [OF f2] obtain res where r: "w (calls s + 1) = Resolved res" and o: "ok res"
    by blast
  from b r o obtain html where t: "body res = BodyText html"
    by (auto simp: bodiesReadable_def)
  have "processUrl w h u secret s =
     (Inr (), s\<lparr>calls := calls s + 2,
        trace := trace s @ [Fetch (addProtocol u), Sleep 60000, Fetch (addProtocol u),
                            Stdout (makeOutput h u secret html)]\<rparr>)"
    by (simp add: processUrl_def fetchWithRetry_retry_ok [OF f1 r o] t consoleLog_def)
  moreover have "url (makeOutput h u secret html) = u"
    by (simp add: makeOutput_def Let_def)
  ultimately show ?thesis by blast
qed

text \<open>
  The retry in a world where the first \<open>fetch\<close> is rejected and the second succeeds, and
  in a world where every response has status 503.
\<close>

lemma failure_retryWorld:
  "failure (retryWorld (calls initIo)) = Some (FetchRejected ''unreachable'')"
  "retryWorld (calls initIo + 1) = Resolved \<lparr>ok = True, status = 200, body = BodyText ''page''\<rparr>"
  by (simp_all add: failure_def retryWorld_def initIo_def)

lemma failure_unavailableWorld:
  "failure (unavailableWorld n) = Some (StatusError 503)"
  by (simp add: failure_def unavailableWorld_def)

lemma addProtocol_www_a: "addProtocol ''www.a.com'' = ''https://www.a.com''"
  by code_simp

lemma makeOutput_sample:
  "makeOutput sampleHelpers ''www.a.com'' None ''page'' =
     \<lparr>url = ''www.a.com'', title = None, email = None\<rparr>"
  by (simp add: makeOutput_def sampleHelpers_def)

lemma retry_once_after_wait_runs:
  "processUrl retryWorld sampleHelpers ''www.a.com'' None initIo =
     (Inr (), \<lparr>calls = 2, trace = [Fetch ''https://www.a.com'', Sleep 60000, Fetch ''https://www.a.com'',
        Stdout \<lparr>url = ''www.a.com'', title = None, email = None\<rparr>]\<rparr>)
   \<and> processUrl unavailableWorld sampleHelpers ''www.a.com'' None initIo =
     (Inr (), \<lparr>calls = 2, trace = [Fetch ''https://www.a.com'', Sleep 60000, Fetch ''https://www.a.com'',
        Stderr (FailedToFetch ''www.a.com'' (StatusError 503))]\<rparr>)"
proof -
  note t1 = retry_once_after_wait [of retryWorld initIo "FetchRejected ''unreachable''"
      "''www.a.com''" sampleHelpers None "[]"]
  from t1 failure_retryWorld(1) have
    "\<forall>res html. retryWorld (calls initIo + 1) = Resolved res \<and> ok res \<and> body res = BodyText html \<longrightarrow>
        (let s' = initIo\<lparr>calls := calls initIo + 2,
                    trace := trace initIo @ [Fetch (addProtocol ''www.a.com''), Sleep 60000,
                       Fetch (addProtocol ''www.a.com''),
                       Stdout (makeOutput sampleHelpers ''www.a.com'' None html)]\<rparr>
         in processUrl retryWorld sampleHelpers ''www.a.com'' None initIo = (Inr (), s')
            \<and> url (makeOutput sampleHelpers ''www.a.com'' None html) = ''www.a.com''
            \<and> processAll retryWorld sampleHelpers None [''www.a.com''] initIo =
               processAll retryWorld sampleHelpers None [] (sleep 1000 s'))"
    by blast
  from this [rule_format, of "\<lparr>ok = True, status = 200, body = BodyText ''page''\<rparr>" "''page''"]
    failure_retryWorld(2)
  have 1: "processUrl retryWorld sampleHelpers ''www.a.com'' None initIo =
     (Inr (), \<lparr>calls = 2, trace = [Fetch ''https://www.a.com'', Sleep 60000, Fetch ''https://www.a.com'',
        Stdout \<lparr>url = ''www.a.com'', title = None, email = None\<rparr>]\<rparr>)"
    by (simp add: Let_def addProtocol_www_a makeOutput_sample initIo_def)
  note t2 = retry_once_after_wait [of unavailableWorld initIo "StatusError 503"
      "''www.a.com''" sampleHelpers None "[]"]
  from t2 failure_unavailableWorld have
    "\<forall>e2. failure (unavailableWorld (calls initIo + 1)) = Some e2 \<longrightarrow>
        (let s' = initIo\<lparr>calls := calls initIo + 2,
                    trace := trace initIo @ [Fetch (addProtocol ''www.a.com''), Sleep 60000,
                       Fetch (addProtocol ''www.a.com''), Stderr (FailedToFetch ''www.a.com'' e2)]\<rparr>
         in processUrl unavailableWorld sampleHelpers ''www.a.com'' None initIo = (Inr (), s')
            \<and> processAll unavailableWorld sampleHelpers None [''www.a.com''] initIo =
               processAll unavailableWorld sampleHelpers None [] (sleep 1000 s'))"
    by blast
  from this [rule_format, of "StatusError 503"] failure_unavailableWorld
  have 2: "processUrl unavailableWorld sampleHelpers ''www.a.com'' None initIo =
     (Inr (), \<lparr>calls = 2, trace = [Fetch ''https://www.a.com'', Sleep 60000, Fetch ''https://www.a.com'',
        Stderr (FailedToFetch ''www.a.com'' (StatusError 503))]\<rparr>)"
    by (simp add: Let_def addProtocol_www_a initIo_def)
  from 1 2 show ?thesis by (rule conjI)
qed

lemma failure_retryBrokenWorld:
  "failure (retryBrokenWorld (calls initIo)) = Some (FetchRejected ''unreachable'')"
  "retryBrokenWorld (calls initIo + 1) = Resolved \<lparr>ok = True, status = 200, body = BodyError ''terminated''\<rparr>"
  "failure (retryBrokenWorld 1) = None"
  by (simp_all add: failure_def retryBrokenWorld_def initIo_def)

text \<open>
  Claim C4 fails on the code: when the first attempt is rejected and the second attempt
  succeeds, with an OK status, and the body of that response cannot be read, no record
  and no diagnostic is written, and the exception leaves \<open>processUrl\<close>, so that the
  processing of the URLs that follow does not go on. The body is read outside the
  \<open>try\<close> blocks of \<open>fetchWithRetry\<close>; this is the defect that claim C3 meets.
\<close>

theorem retry_then_unreadable_body_raises:
  "failure (retryBrokenWorld 0) = Some (FetchRejected ''unreachable'')
   \<and> failure (retryBrokenWorld 1) = None
   \<and> processUrl retryBrokenWorld sampleHelpers ''www.a.com'' None initIo =
       (Inl ''terminated'',
        \<lparr>calls = 2, trace = [Fetch ''https://www.a.com'', Sleep 60000, Fetch ''https://www.a.com'']\<rparr>)
   \<and> processAll retryBrokenWorld sampleHelpers None [''www.a.com'', ''www.b.com''] initIo =
       (Inl ''terminated'',
        \<lparr>calls = 2, trace = [Fetch ''https://www.a.com'', Sleep 60000, Fetch ''https://www.a.com'']\<rparr>)"
proof -
  have "fetchWithRetry retryBrokenWorld ''www.a.com'' initIo =
     (Some \<lparr>ok = True, status = 200, body = BodyError ''terminated''\<rparr>,
      initIo\<lparr>calls := calls initIo + 2,
        trace := trace initIo @ [Fetch (addProtocol ''www.a.com''), Sleep 60000,
                                 Fetch (addProtocol ''www.a.com'')]\<rparr>)"
    by (rule fetchWithRetry_retry_ok [OF failure_retryBrokenWorld(1) failure_retryBrokenWorld(2)]) simp
  then have p: "processUrl retryBrokenWorld sampleHelpers ''www.a.com'' None initIo =
       (Inl ''terminated'',
        \<lparr>calls = 2, trace = [Fetch ''https://www.a.com'', Sleep 60000, Fetch ''https://www.a.com'']\<rparr>)"
    by (simp add: processUrl_def addProtocol_www_a initIo_def)
  then have "processAll retryBrokenWorld sampleHelpers None [''www.a.com'', ''www.b.com''] initIo =
       (Inl ''terminated'',
        \<lparr>calls = 2, trace = [Fetch ''https://www.a.com'', Sleep 60000, Fetch ''https://www.a.com'']\<rparr>)"
    by simp
  with p failure_retryBrokenWorld(1,3) show ?thesis
    by (simp add: initIo_def)
qed

lemma fetchWithRetry_Some:
  "fetchWithRetry w u s = (Some res, s1) \<Longrightarrow> ok res \<and> (\<exists>n. w n = Resolved res)"
proof -
  assume a: "fetchWithRetry w u s = (Some res, s1)"
  have at: "attempt w u t = (Inr r, t1) \<Longrightarrow> ok r \<and> (\<exists>n. w n = Resolved r)" for t r t1
    by (auto simp: attempt_def fetch_def split: fetchOutcome.splits if_splits)
  obtain r1 t1 where a1: "attempt w u s = (r1, t1)" by (cases "attempt w u s")
  show ?thesis
  proof (cases r1)
    case (Inr r)
    with a a1 have "r = res" by (simp add: fetchWithRetry_def)
    with at [of s r t1] a1 Inr show ?thesis by simp
  next
    case (Inl e)
    obtain r2 t2 where a2: "attempt w u (sleep 60000 t1) = (r2, t2)"
      by (cases "attempt w u (sleep 60000 t1)")
    show ?thesis
    proof (cases r2)
      case (Inr r)
      with a a1 a2 Inl have "r = res" by (simp add: fetchWithRetry_def)
      with at [of "sleep 60000 t1" r t2] a2 Inr show ?thesis by simp
    next
      case (Inl e2)
      with a a1 a2 \<open>r1 = Inl e\<close> show ?thesis by (simp add: fetchWithRetry_def)
    qed
  qed
qed

lemma processUrl_returns: "bodiesReadable w \<Longrightarrow> fst (processUrl w h u secret s) = Inr ()"
proof -
  assume b: "bodiesReadable w"
  obtain r s1 where f: "fetchWithRetry w u s = (r, s1)" by (cases "fetchWithRetry w u s")
  show ?thesis
  proof (cases r)
    case None
    with f show ?thesis by (simp add: processUrl_def)
  next
    case (Some res)
    with fetchWithRetry_Some [of w u s res s1] f b obtain html where "body res = BodyText html"
      by (auto simp: bodiesReadable_def)
    with f Some show ?thesis by (simp add: processUrl_def)
  qed
qed

lemma processAll_returns: "bodiesReadable w \<Longrightarrow> fst (processAll w h secret us s) = Inr ()"
proof (induction us arbitrary: s)
  case Nil
  show ?case by simp
next
  case (Cons u us)
  obtain r s1 where p: "processUrl w h u secret s = (r, s1)" by (cases "processUrl w h u secret s")
  with processUrl_returns [OF Cons.prems, of h u secret s] have "r = Inr ()" by simp
  with p Cons.IH [OF Cons.prems, of "sleep 1000 s1"] show ?case by simp
qed

text \<open>
  Claim C9, as amended. When the input file cannot be read, \<open>main\<close> writes one diagnostic,
  makes no \<open>fetch\<close> and returns normally: it ends as it does after the read of an input
  in which \<open>parseUrls\<close> finds no URL, which writes nothing. In every world in which each
  body that comes with an OK response can be read, \<open>main\<close> returns normally whatever
  the read gave and whatever the outcomes of the fetches: there the way \<open>main\<close> ends
  tells neither whether the input could be read nor whether a fetch succeeded.
\<close>

theorem unreadable_input_one_diagnostic:
  "mainFile w h secret path (ReadError e) =
     (Inr (), \<lparr>calls = 0, trace = [Stderr (FailedToRead path e)]\<rparr>)
   \<and> (parseUrls t = [] \<longrightarrow> mainFile w h secret path (ReadOk t) = (Inr (), \<lparr>calls = 0, trace = []\<rparr>))
   \<and> (bodiesReadable w \<longrightarrow> fst (mainFile w h secret path rd) = Inr ())"
proof (intro conjI impI)
  show "mainFile w h secret path (ReadError e) =
     (Inr (), \<lparr>calls = 0, trace = [Stderr (FailedToRead path e)]\<rparr>)"
    by (simp add: mainFile_def consoleError_def initIo_def)
next
  assume "parseUrls t = []"
  then show "mainFile w h secret path (ReadOk t) = (Inr (), \<lparr>calls = 0, trace = []\<rparr>)"
    by (simp add: mainFile_def initIo_def)
next
  assume b: "bodiesReadable w"
  show "fst (mainFile w h secret path rd) = Inr ()"
  proof (cases rd)
    case (ReadError x)
    then show ?thesis by (simp add: mainFile_def)
  next
    case (ReadOk t)
    then show ?thesis using processAll_returns [OF b]
      by (simp add: mainFile_ReadOk)
  qed
qed

text \<open>
  The theorem in a world where the first \<open>fetch\<close> is rejected and the later ones get a
  page.
\<close>

lemma bodiesReadable_retryWorld: "bodiesReadable retryWorld"
  by (auto simp: bodiesReadable_def retryWorld_def split: if_splits)

lemma parse_no_url: "parseUrls ''no url [here]'' = []"
  by code_simp

theorem unreadable_input_one_diagnostic_witness:
  "bodiesReadable retryWorld
   \<and> fst (mainFile retryWorld sampleHelpers None ''in.txt'' (ReadOk ''[www.a.com]'')) = Inr ()
   \<and> parseUrls ''no url [here]'' = []
   \<and> mainFile retryWorld sampleHelpers None ''in.txt'' (ReadOk ''no url [here]'') =
     (Inr (), \<lparr>calls = 0, trace = []\<rparr>)
   \<and> mainFile retryWorld sampleHelpers None ''in.txt'' (ReadError ''ENOENT'') =
     (Inr (), \<lparr>calls = 0, trace = [Stderr (FailedToRead ''in.txt'' ''ENOENT'')]\<rparr>)"
proof -
  note t = unreadable_input_one_diagnostic [of retryWorld sampleHelpers None "''in.txt''"
      "''ENOENT''" "''no url [here]''" "ReadOk ''[www.a.com]''"]
  from t have 1: "mainFile retryWorld sampleHelpers None ''in.txt'' (ReadError ''ENOENT'') =
     (Inr (), \<lparr>calls = 0, trace = [Stderr (FailedToRead ''in.txt'' ''ENOENT'')]\<rparr>)"
    by (rule conjunct1)
  from t have "bodiesReadable retryWorld \<longrightarrow>
      fst (mainFile retryWorld sampleHelpers None ''in.txt'' (ReadOk ''[www.a.com]'')) = Inr ()"
    by (elim conjE)
  from this bodiesReadable_retryWorld
  have 2: "fst (mainFile retryWorld sampleHelpers None ''in.txt'' (ReadOk ''[www.a.com]'')) = Inr ()"
    by (rule mp)
  from t have "parseUrls ''no url [here]'' = [] \<longrightarrow>
      mainFile retryWorld sampleHelpers None ''in.txt'' (ReadOk ''no url [here]'') =
        (Inr (), \<lparr>calls = 0, trace = []\<rparr>)"
    by (elim conjE)
  from this parse_no_url
  have 3: "mainFile retryWorld sampleHelpers None ''in.txt'' (ReadOk ''no url [here]'') =
        (Inr (), \<lparr>calls = 0, trace = []\<rparr>)"
    by (rule mp)
  from bodiesReadable_retryWorld 2 parse_no_url 3 1 show ?thesis by (intro conjI)
qed

text \<open>
  Claim C9 as stated fails: after a failed read \<open>main\<close> ends as it does after the read of
  an empty file, with a normal return.
\<close>

theorem unreadable_input_status_counterexample:
  "fst (mainFile failingWorld sampleHelpers None ''in.txt'' (ReadError ''ENOENT'')) = Inr ()
   \<and> fst (mainFile failingWorld sampleHelpers None ''in.txt'' (ReadOk [])) = Inr ()"
  by (simp add: mainFile_def parseUrls_def initState_def)

lemma parse_a_b: "parseUrls ''[www.a.com] [www.b.com]'' = [''www.a.com'', ''www.b.com'']"
  by code_simp

lemma processUrl_brokenBody:
  "processUrl brokenBodyWorld h u secret s =
     (Inl ''terminated'', s\<lparr>calls := calls s + 1, trace := trace s @ [Fetch (addProtocol u)]\<rparr>)"
proof -
  have "brokenBodyWorld (calls s) = Resolved \<lparr>ok = True, status = 200, body = BodyError ''terminated''\<rparr>"
    by (simp add: brokenBodyWorld_def)
  from fetchWithRetry_first_ok [where w = brokenBodyWorld and s = s and u = u, OF this] show ?thesis
    by (simp add: processUrl_def)
qed

text \<open>
  Claim C3 fails on the code: when a response with an OK status arrives and its body
  cannot be read, the exception leaves \<open>processUrl\<close>. In the file mode it ends \<open>main\<close>
  before the second URL is fetched; in the stream mode it leaves \<open>drain\<close> and ends the
  process with the second URL still in the queue.
\<close>

theorem processUrl_body_failure_raises:
  "processUrl brokenBodyWorld sampleHelpers ''www.a.com'' None initIo =
     (Inl ''terminated'', \<lparr>calls = 1, trace = [Fetch ''https://www.a.com'']\<rparr>)
   \<and> mainFile brokenBodyWorld sampleHelpers None ''in.txt'' (ReadOk ''[www.a.com] [www.b.com]'') =
     (Inl ''terminated'', \<lparr>calls = 1, trace = [Fetch ''https://www.a.com'']\<rparr>)
   \<and> map_option (\<lambda>s. (stat s, queue s, trace (sio s)))
       (srun brokenBodyWorld sampleHelpers None initStream [Data ''[www.a.com] [www.b.com]'', Complete]) =
     Some (Crashed ''terminated'', [''www.b.com''], [Fetch ''https://www.a.com''])"
proof -
  have 1: "processUrl brokenBodyWorld sampleHelpers ''www.a.com'' None initIo =
     (Inl ''terminated'', \<lparr>calls = 1, trace = [Fetch ''https://www.a.com'']\<rparr>)"
    by (simp add: processUrl_brokenBody addProtocol_www_a initIo_def)
  have 2: "mainFile brokenBodyWorld sampleHelpers None ''in.txt'' (ReadOk ''[www.a.com] [www.b.com]'') =
     (Inl ''terminated'', \<lparr>calls = 1, trace = [Fetch ''https://www.a.com'']\<rparr>)"
    by (simp add: mainFile_ReadOk parse_a_b 1)
  have li: "lastIndexOf CHR '']'' ''[www.a.com] [www.b.com]'' = 22"
    by code_simp
  have d: "onData ''[www.a.com] [www.b.com]'' initStream =
      initStream\<lparr>sbuffer := [], seen := {''www.b.com'', ''www.a.com''}, queue := [''www.b.com''],
        processing := True, worker := Busy ''www.a.com'',
        sio := \<lparr>calls = 1, trace = [Fetch ''https://www.a.com'']\<rparr>,
        arrivals := [''www.a.com'', ''www.b.com''], starts := [(0, ''www.a.com'')]\<rparr>"
    by (simp add: onData_def Let_def parse_a_b li schedule_def admit_def enqueue_def drain_def
        drainLoop_def initStream_def fetchCall_def addProtocol_www_a initIo_def)
  have 3: "map_option (\<lambda>s. (stat s, queue s, trace (sio s)))
       (srun brokenBodyWorld sampleHelpers None initStream [Data ''[www.a.com] [www.b.com]'', Complete]) =
     Some (Crashed ''terminated'', [''www.b.com''], [Fetch ''https://www.a.com''])"
    by (simp add: sstep_def d [unfolded initStream_def initIo_def] initStream_def onComplete_def
        processUrl_brokenBody drainFinally_def Let_def addProtocol_www_a initIo_def)
  from 1 2 3 show ?thesis by (intro conjI)
qed


section \<open>The retained buffer of the stream mode\<close>

lemma sbuffer_onData:
  "sbuffer (onData chunk s) =
     (if lastIndexOf CHR '']'' (sbuffer s @ chunk) \<noteq> - 1
      then drop (nat (lastIndexOf CHR '']'' (sbuffer s @ chunk) + 1)) (sbuffer s @ chunk)
      else sbuffer s @ chunk)"
  using foldl_schedule [of "s\<lparr>sbuffer := sbuffer s @ chunk\<rparr>" "parseUrls (sbuffer s @ chunk)"]
  by (simp add: onData_def Let_def)

lemma escaped_chunk_parse: "parseUrls escapedChunk = []"
  by code_simp

lemma escaped_chunk_drop:
  "lastIndexOf CHR '']'' escapedChunk = 13 \<and> drop 14 escapedChunk = '' ''"
  by code_simp

lemma escaped_rest_parse: "parseUrls ('' '' @ '']'') = []"
  by code_simp

lemma escaped_whole_parse: "parseUrls (escapedChunk @ '']'') = [''www.a.com'']"
  by code_simp

lemma nested_chunk_parse: "parseUrls nestedChunk = []"
  by code_simp

lemma nested_chunk_drop:
  "lastIndexOf CHR '']'' nestedChunk = 4 \<and> drop 5 nestedChunk = '' www.a.com ''"
  by code_simp

lemma nested_rest_parse: "parseUrls ('' www.a.com '' @ '']'') = []"
  by code_simp

lemma nested_whole_parse: "parseUrls (nestedChunk @ '']'') = [''www.a.com'']"
  by code_simp

lemma nested_stream: "streamUrls [nestedChunk, '']''] = []"
proof -
  have b0: "sbuffer initStream @ nestedChunk = nestedChunk" and a0: "arrivals initStream = []"
    by (simp_all add: initStream_def)
  have 1: "sbuffer (onData nestedChunk initStream) = '' www.a.com ''"
    by (simp add: sbuffer_onData b0 nested_chunk_drop)
  have 2: "arrivals (onData nestedChunk initStream) = []"
    by (simp add: onData_fields b0 nested_chunk_parse a0)
  have 3: "arrivals (onData '']'' (onData nestedChunk initStream)) = []"
    by (simp add: onData_fields(1) [of "'']''"] 1 2 nested_rest_parse del: append.simps)
  have "streamUrls [nestedChunk, '']''] = arrivals (onData '']'' (onData nestedChunk initStream))"
    by (simp add: streamUrls_def)
  with 3 show ?thesis by simp
qed

text \<open>
  Claim C5 fails on the code: the handler of \<open>data\<close> cuts the retained buffer after the
  last \<open>]\<close> of any kind. A group that is open at the end of a chunk, with an escaped
  bracket or a closed inner group in it, loses its text: it emits nothing when a later
  chunk closes it, where the scan of the whole text emits its URL.
\<close>

theorem stream_truncation_drops_open_group:
  "parseUrls (escapedChunk @ '']'') = [''www.a.com'']
   \<and> sbuffer (onData escapedChunk initStream) = '' ''
   \<and> streamUrls [escapedChunk, '']''] = []
   \<and> parseUrls (nestedChunk @ '']'') = [''www.a.com'']
   \<and> streamUrls [nestedChunk, '']''] = []"
proof -
  have b0: "sbuffer initStream @ escapedChunk = escapedChunk" and a0: "arrivals initStream = []"
    by (simp_all add: initStream_def)
  have 1: "sbuffer (onData escapedChunk initStream) = '' ''"
    by (simp add: sbuffer_onData b0 escaped_chunk_drop)
  have 2: "arrivals (onData escapedChunk initStream) = []"
    by (simp add: onData_fields b0 escaped_chunk_parse a0)
  have 3: "arrivals (onData '']'' (onData escapedChunk initStream)) = []"
    by (simp add: onData_fields(1) [of "'']''"] 1 2 escaped_rest_parse del: append.simps)
  have "streamUrls [escapedChunk, '']''] = arrivals (onData '']'' (onData escapedChunk initStream))"
    by (simp add: streamUrls_def)
  with 3 have 4: "streamUrls [escapedChunk, '']''] = []" by simp
  from escaped_whole_parse 1 4 nested_whole_parse nested_stream show ?thesis by (intro conjI)
qed


section \<open>The queue of the stream mode\<close>

lemma spaced_snoc:
  "spaced (xs @ [a]) = (spaced xs \<and> (xs = [] \<or> fst (last xs) + 1000 \<le> fst a))"
  by (induction xs rule: spaced.induct) auto

lemma hotAfter_append: "hotAfter hot (a @ b) = hotAfter (hotAfter hot a) b"
  by (induction hot a rule: hotAfter.induct) auto

lemma paced_append: "paced hot (a @ b) = (paced hot a \<and> paced (hotAfter hot a) b)"
  by (induction hot a rule: paced.induct) auto

text \<open>\<open>fetchCall\<close> is what \<open>fetch\<close> does to the trace, whatever the outcome.\<close>

lemma fetch_fetchCall: "snd (fetch w u s) = fetchCall u s"
  by (simp add: fetch_def fetchCall_def)

lemma paced_fetchCall:
  "paced False (trace s) \<Longrightarrow> \<not> hotAfter False (trace s) \<Longrightarrow> paced False (trace (fetchCall u s))"
  by (simp add: fetchCall_def paced_append)

lemma queueInv_init: "queueInv initStream"
  by (simp add: queueInv_def initStream_def initIo_def)

lemma queueInv_tick: "queueInv s \<Longrightarrow> queueInv (s\<lparr>now := now s + d\<rparr>)"
  by (auto simp: queueInv_def)

lemma queueInv_drainFinally:
  "queueInv s \<Longrightarrow> worker s = Pausing \<Longrightarrow> due s \<le> now s \<Longrightarrow> queue s = [] \<Longrightarrow>
   queueInv (drainFinally s)"
  by (auto simp: queueInv_def drainFinally_def Let_def)

lemma queueInv_wake:
  "queueInv s \<Longrightarrow> stat s = Alive \<Longrightarrow> worker s = Pausing \<Longrightarrow> due s \<le> now s \<Longrightarrow> queueInv (drainLoop s)"
proof (cases "queue s")
  case Nil
  assume "queueInv s" "worker s = Pausing" "due s \<le> now s"
  with Nil queueInv_drainFinally [of s] show ?thesis by (simp add: drainLoop_def)
next
  case (Cons u us)
  assume i: "queueInv s" and a: "stat s = Alive" and w: "worker s = Pausing" and d: "due s \<le> now s"
  from i a w have "paced False (trace (sio s))" and "\<not> hotAfter False (trace (sio s))"
    by (simp_all add: queueInv_def)
  from this paced_fetchCall [OF this] Cons i a w d show ?thesis
    by (auto simp: queueInv_def drainLoop_def spaced_snoc)
qed

lemma queueInv_enqueue: "queueInv s \<Longrightarrow> stat s = Alive \<Longrightarrow> queueInv (enqueue u s)"
proof (cases "processing s")
  case True
  assume "queueInv s" "stat s = Alive"
  with True show ?thesis by (auto simp: queueInv_def enqueue_def drain_def)
next
  case False
  assume i: "queueInv s" and a: "stat s = Alive"
  with False have w: "worker s = Idle" by (simp add: queueInv_def)
  with i a have q: "queue s = []" by (simp add: queueInv_def)
  from i a w have "paced False (trace (sio s))" and "\<not> hotAfter False (trace (sio s))"
    by (simp_all add: queueInv_def)
  from this paced_fetchCall [OF this] i a w q False show ?thesis
    by (auto simp: queueInv_def enqueue_def drain_def drainLoop_def spaced_snoc)
qed

lemma stat_enqueue: "stat (enqueue u s) = stat s"
  by (cases "queue s") (auto simp: enqueue_def drain_def drainLoop_def)

lemma queueInv_schedule: "queueInv s \<and> stat s = Alive \<Longrightarrow> queueInv (schedule s u) \<and> stat (schedule s u) = Alive"
proof -
  assume a: "queueInv s \<and> stat s = Alive"
  have "queueInv (s\<lparr>seen := x\<rparr>) = queueInv s" for x by (simp add: queueInv_def)
  with a queueInv_enqueue [of "s\<lparr>seen := insert u (seen s)\<rparr>" u] show ?thesis
    by (auto simp: schedule_def admit_def stat_enqueue)
qed

lemma queueInv_foldl:
  "queueInv s \<and> stat s = Alive \<Longrightarrow> queueInv (foldl schedule s us) \<and> stat (foldl schedule s us) = Alive"
proof (induction us arbitrary: s)
  case Nil
  then show ?case by simp
next
  case (Cons u us)
  from Cons.IH [OF queueInv_schedule [OF Cons.prems]] show ?case by simp
qed

lemma queueInv_sbuffer: "queueInv (s\<lparr>sbuffer := b\<rparr>) = queueInv s"
  by (simp add: queueInv_def)

lemma queueInv_onData: "queueInv s \<Longrightarrow> stat s = Alive \<Longrightarrow> queueInv (onData chunk s)"
  using queueInv_foldl [of "s\<lparr>sbuffer := sbuffer s @ chunk\<rparr>" "parseUrls (sbuffer s @ chunk)"]
  by (simp add: onData_def Let_def queueInv_sbuffer)

lemma queueInv_onEnd: "queueInv s \<Longrightarrow> queueInv (onEnd s)"
  by (auto simp: queueInv_def onEnd_def Let_def)

text \<open>
  The trace of a call of \<open>processUrl\<close> begins with the call of \<open>fetch\<close> for the URL, and
  holds no second \<open>Fetch\<close> without a \<open>Sleep\<close> before it.
\<close>

lemma processUrl_paced:
  "\<exists>evs. trace (snd (processUrl w h u secret s)) = trace (fetchCall (addProtocol u) s) @ evs
     \<and> paced True evs"
proof (cases "failure (w (calls s))")
  case None
  from failure_None [OF None] obtain res where r: "w (calls s) = Resolved res" and o: "ok res"
    by blast
  show ?thesis
  proof (cases "body res")
    case (BodyText html)
    have "trace (snd (processUrl w h u secret s)) =
        trace s @ [Fetch (addProtocol u), Stdout (makeOutput h u secret html)]"
      by (simp add: processUrl_def fetchWithRetry_first_ok [where w = w and s = s, OF r o] BodyText consoleLog_def)
    then show ?thesis by (simp add: fetchCall_def)
  next
    case (BodyError e)
    have "trace (snd (processUrl w h u secret s)) = trace s @ [Fetch (addProtocol u)]"
      by (simp add: processUrl_def fetchWithRetry_first_ok [where w = w and s = s, OF r o] BodyError)
    then show ?thesis by (simp add: fetchCall_def)
  qed
next
  case (Some e1)
  show ?thesis
  proof (cases "failure (w (calls s + 1))")
    case None
    from failure_None [OF None] obtain res where r: "w (calls s + 1) = Resolved res" and o: "ok res"
      by blast
    show ?thesis
    proof (cases "body res")
      case (BodyText html)
      have "trace (snd (processUrl w h u secret s)) =
          trace s @ [Fetch (addProtocol u), Sleep 60000, Fetch (addProtocol u),
                     Stdout (makeOutput h u secret html)]"
        by (simp add: processUrl_def fetchWithRetry_retry_ok [where w = w and s = s, OF Some r o] BodyText consoleLog_def)
      then show ?thesis by (simp add: fetchCall_def)
    next
      case (BodyError e)
      have "trace (snd (processUrl w h u secret s)) =
          trace s @ [Fetch (addProtocol u), Sleep 60000, Fetch (addProtocol u)]"
        by (simp add: processUrl_def fetchWithRetry_retry_ok [where w = w and s = s, OF Some r o] BodyError)
      then show ?thesis by (simp add: fetchCall_def)
    qed
  next
    case s2: (Some e2)
    have "trace (snd (processUrl w h u secret s)) =
          trace s @ [Fetch (addProtocol u), Sleep 60000, Fetch (addProtocol u),
                     Stderr (FailedToFetch u e2)]"
      by (simp add: processUrl_def fetchWithRetry_both_fail [where w = w and s = s, OF Some s2])
    then show ?thesis by (simp add: fetchCall_def)
  qed
qed

lemma paced_task:
  "paced False t \<Longrightarrow> \<not> hotAfter False t \<Longrightarrow> paced True evs \<Longrightarrow>
   paced False (t @ Fetch u # evs) \<and> paced False (t @ Fetch u # evs @ [Sleep 1000])
   \<and> \<not> hotAfter False (t @ Fetch u # evs @ [Sleep 1000])"
  by (simp add: paced_append hotAfter_append)

lemma queueInv_onComplete:
  "queueInv s \<Longrightarrow> stat s = Alive \<Longrightarrow> worker s = Busy u \<Longrightarrow> queueInv (onComplete w h secret u s)"
proof -
  assume i: "queueInv s" and a: "stat s = Alive" and b: "worker s = Busy u"
  obtain r io1 where p: "processUrl w h u secret (pending s) = (r, io1)"
    by (cases "processUrl w h u secret (pending s)")
  from processUrl_paced [of w h u secret "pending s"] p obtain evs
    where t: "trace io1 = trace (pending s) @ Fetch (addProtocol u) # evs" and pe: "paced True evs"
    by (auto simp: fetchCall_def)
  from i a b have "paced False (trace (pending s))" and "\<not> hotAfter False (trace (pending s))"
    by (simp_all add: queueInv_def)
  from paced_task [OF this pe] t
  have pt: "paced False (trace io1)" "paced False (trace (sleep 1000 io1))"
    "\<not> hotAfter False (trace (sleep 1000 io1))"
    by (simp_all add: sleep_def)
  show ?thesis
  proof (cases r)
    case (Inr x)
    with i a b p pt show ?thesis
      by (auto simp: queueInv_def onComplete_def)
  next
    case (Inl e)
    with i a b p pt show ?thesis
      by (auto simp: queueInv_def onComplete_def drainFinally_def Let_def)
  qed
qed

lemma queueInv_sstep: "queueInv s \<Longrightarrow> sstep w h secret s ev = Some s1 \<Longrightarrow> queueInv s1"
proof (cases ev)
  case (Data chunk)
  assume "queueInv s" "sstep w h secret s ev = Some s1"
  with Data queueInv_onData [of s chunk] show ?thesis
    by (auto simp: sstep_def split: if_splits)
next
  case End
  assume "queueInv s" "sstep w h secret s ev = Some s1"
  with End queueInv_onEnd [of s] show ?thesis
    by (auto simp: sstep_def split: if_splits)
next
  case Complete
  assume "queueInv s" "sstep w h secret s ev = Some s1"
  with Complete queueInv_onComplete [of s _ w h secret] show ?thesis
    by (auto simp: sstep_def split: if_splits worker.splits)
next
  case Wake
  assume "queueInv s" "sstep w h secret s ev = Some s1"
  with Wake queueInv_wake [of s] show ?thesis
    by (auto simp: sstep_def split: if_splits)
next
  case (Tick d)
  assume "queueInv s" "sstep w h secret s ev = Some s1"
  with Tick queueInv_tick [of s d] show ?thesis
    by (auto simp: sstep_def split: if_splits)
qed

lemma queueInv_srun: "queueInv s \<Longrightarrow> srun w h secret s evs = Some s1 \<Longrightarrow> queueInv s1"
proof (induction evs arbitrary: s)
  case Nil
  then show ?case by simp
next
  case (Cons ev evs)
  from Cons.prems(2) obtain s2 where 1: "sstep w h secret s ev = Some s2"
    and 2: "srun w h secret s2 evs = Some s1"
    by (auto split: option.splits)
  from Cons.IH [OF queueInv_sstep [OF Cons.prems(1) 1] 2] show ?case .
qed

lemma processAll_paced:
  "paced False (trace s) \<Longrightarrow> \<not> hotAfter False (trace s) \<Longrightarrow>
   paced False (trace (snd (processAll w h secret us s)))"
proof (induction us arbitrary: s)
  case Nil
  then show ?case by simp
next
  case (Cons u us)
  obtain r s1 where p: "processUrl w h u secret s = (r, s1)"
    by (cases "processUrl w h u secret s")
  from processUrl_paced [of w h u secret s] p obtain evs
    where t: "trace s1 = trace s @ Fetch (addProtocol u) # evs" and pe: "paced True evs"
    by (auto simp: fetchCall_def)
  from paced_task [OF Cons.prems pe] t
  have pt: "paced False (trace s1)" "paced False (trace (sleep 1000 s1))"
    "\<not> hotAfter False (trace (sleep 1000 s1))"
    by (simp_all add: sleep_def)
  show ?case
  proof (cases r)
    case (Inl e)
    with p pt show ?thesis by simp
  next
    case (Inr x)
    with p Cons.IH [OF pt(2,3)] show ?thesis by simp
  qed
qed

lemma spaced_nth:
  "spaced xs \<Longrightarrow> Suc i < length xs \<Longrightarrow> fst (xs ! i) + 1000 \<le> fst (xs ! Suc i)"
proof (induction xs arbitrary: i rule: spaced.induct)
  case (1 a b r)
  then show ?case by (cases i) auto
next
  case (2 a)
  then show ?case by simp
next
  case 3
  then show ?case by simp
qed

lemma enqueue_processing:
  "processing s \<Longrightarrow> enqueue u s = s\<lparr>queue := queue s @ [u], arrivals := arrivals s @ [u]\<rparr>"
  by (simp add: enqueue_def drain_def)

lemma enqueue_idle:
  "\<not> processing s \<Longrightarrow> queue s = [] \<Longrightarrow>
   enqueue u s = s\<lparr>queue := [], processing := True, worker := Busy u, sio := fetchCall (addProtocol u) (sio s),
     pending := sio s, arrivals := arrivals s @ [u], starts := starts s @ [(now s, u)]\<rparr>"
  by (simp add: enqueue_def drain_def drainLoop_def)

lemma onComplete_normal:
  "fst (processUrl w h u secret (pending s)) = Inr () \<Longrightarrow>
   onComplete w h secret u s =
     s\<lparr>sio := sleep 1000 (snd (processUrl w h u secret (pending s))), worker := Pausing,
       due := now s + 1000\<rparr>"
  by (cases "processUrl w h u secret (pending s)") (auto simp: onComplete_def)

text \<open>
  Order and spacing, in every world. In every state that a run of the stream mode
  reaches, whatever the chunks, the outcomes of the fetches and the times of the events:
  the tasks started so far, followed by the tasks waiting, are the URLs given to
  \<open>enqueue\<close>, in the order in which they were given (the queue is served first in, first
  out); each start is at least 1000 milliseconds after the one before; in the trace a
  \<open>Sleep\<close> of at least 1000 milliseconds stands between any two \<open>Fetch\<close> events; and a
  task that waits is never left without \<open>drain\<close> under way. The trace of the file mode
  is paced as well.

  The time a task takes and the moments at which chunks arrive are left to the
  environment; a timer fires at or after its due time.
\<close>

lemma queue_order_and_spacing:
  "(srun w h secret initStream evs = Some s \<longrightarrow>
      map snd (starts s) @ queue s = arrivals s
      \<and> (\<forall>i. Suc i < length (starts s) \<longrightarrow> fst (starts s ! i) + 1000 \<le> fst (starts s ! Suc i))
      \<and> paced False (trace (sio s))
      \<and> (stat s = Alive \<and> queue s \<noteq> [] \<longrightarrow> processing s \<and> worker s \<noteq> Idle))
   \<and> paced False (trace (snd (processAll w h secret us initIo)))"
proof (intro conjI impI allI)
  assume r: "srun w h secret initStream evs = Some s"
  from queueInv_srun [OF queueInv_init r]
  show "map snd (starts s) @ queue s = arrivals s" by (simp add: queueInv_def)
next
  fix i
  assume r: "srun w h secret initStream evs = Some s" and i: "Suc i < length (starts s)"
  from queueInv_srun [OF queueInv_init r] have "spaced (starts s)" by (simp add: queueInv_def)
  from spaced_nth [OF this i] show "fst (starts s ! i) + 1000 \<le> fst (starts s ! Suc i)" .
next
  assume r: "srun w h secret initStream evs = Some s"
  from queueInv_srun [OF queueInv_init r]
  show "paced False (trace (sio s))" by (simp add: queueInv_def)
next
  assume r: "srun w h secret initStream evs = Some s" and a: "stat s = Alive \<and> queue s \<noteq> []"
  from queueInv_srun [OF queueInv_init r] a show "processing s" by (auto simp: queueInv_def)
next
  assume r: "srun w h secret initStream evs = Some s" and a: "stat s = Alive \<and> queue s \<noteq> []"
  from queueInv_srun [OF queueInv_init r] a show "worker s \<noteq> Idle" by (auto simp: queueInv_def)
next
  have "paced False (trace initIo)" "\<not> hotAfter False (trace initIo)"
    by (simp_all add: initIo_def)
  from processAll_paced [OF this] show "paced False (trace (snd (processAll w h secret us initIo)))" .
qed

text \<open>
  \<open>enqueue\<close> returns without waiting for anything. While \<open>drain\<close> is under way it only
  appends the URL to the queue. Otherwise it starts \<open>drain\<close>, which takes the URL from
  the queue and calls \<open>processUrl\<close>: \<open>fetch\<close> is called for the URL, and \<open>enqueue\<close>
  returns with the task under way, before the outcome of the \<open>fetch\<close> is there.
\<close>

lemma enqueue_returns:
  "arrivals (enqueue u s) = arrivals s @ [u] \<and> now (enqueue u s) = now s
   \<and> (processing s \<longrightarrow> enqueue u s = s\<lparr>queue := queue s @ [u], arrivals := arrivals s @ [u]\<rparr>)
   \<and> (\<not> processing s \<and> queue s = [] \<longrightarrow>
        worker (enqueue u s) = Busy u \<and> queue (enqueue u s) = []
        \<and> starts (enqueue u s) = starts s @ [(now s, u)]
        \<and> trace (sio (enqueue u s)) = trace (sio s) @ [Fetch (addProtocol u)])"
  by (simp add: enqueue_fields enqueue_processing enqueue_idle fetchCall_def)

text \<open>
  When \<open>processUrl\<close> returns, with a record or after a failed fetch, \<open>drain\<close> starts a
  pause of 1000 milliseconds with the queue as it is, and the next task is taken from
  the queue only when the timer of the pause fires, which is not before it is due.
\<close>

lemma pause_after_task:
  "(fst (processUrl w h u secret (pending s)) = Inr () \<longrightarrow>
        worker (onComplete w h secret u s) = Pausing
        \<and> due (onComplete w h secret u s) = now s + 1000
        \<and> queue (onComplete w h secret u s) = queue s
        \<and> starts (onComplete w h secret u s) = starts s
        \<and> trace (sio (onComplete w h secret u s)) =
            trace (snd (processUrl w h u secret (pending s))) @ [Sleep 1000])
   \<and> (sstep w h secret s Wake = Some s1 \<longrightarrow> worker s = Pausing \<and> due s \<le> now s)"
  by (auto simp: onComplete_normal sleep_def sstep_def split: if_splits)

text \<open>
  When the timer of the pause fires with the queue empty, \<open>drain\<close> ends: it clears
  \<open>processing\<close>, and it ends the process with exit code 0 when the input has closed.
  A URL given to \<open>enqueue\<close> after that is started at once.
\<close>

lemma drain_ends_and_restarts:
  "stat s = Alive \<Longrightarrow> worker s = Pausing \<Longrightarrow> due s \<le> now s \<Longrightarrow> queue s = [] \<Longrightarrow>
   sstep w h secret s Wake = Some (drainFinally s)
   \<and> \<not> processing (drainFinally s) \<and> worker (drainFinally s) = Idle
   \<and> stat (drainFinally s) = (if ended s then Exited 0 else Alive)
   \<and> worker (enqueue u (drainFinally s)) = Busy u
   \<and> starts (enqueue u (drainFinally s)) = starts s @ [(now s, u)]"
  by (simp add: sstep_def drainLoop_def drainFinally_def enqueue_def drain_def Let_def)

lemma srun_append:
  "srun w h secret s (a @ b) =
     (case srun w h secret s a of None \<Rightarrow> None | Some s1 \<Rightarrow> srun w h secret s1 b)"
  by (induction a arbitrary: s) (auto split: option.splits)

text \<open>
  Where every body that comes with an OK response can be read, the task at the head of
  the queue is started once the task under way has settled and the pause has passed.
\<close>

lemma serve_head:
  assumes b: "bodiesReadable w" and i: "queueInv s" and a: "stat s = Alive"
    and q: "queue s = u # rest"
  shows "\<exists>s'. srun w h secret s (serveNext s) = Some s' \<and> stat s' = Alive \<and> worker s' = Busy u
     \<and> queue s' = rest \<and> starts s' = starts s @ [(now s', u)] \<and> arrivals s' = arrivals s"
proof (cases "worker s")
  case Idle
  with i a q show ?thesis by (simp add: queueInv_def)
next
  case (Busy v)
  from processUrl_returns [OF b, of h v secret "pending s"]
  have "onComplete w h secret v s =
     s\<lparr>sio := sleep 1000 (snd (processUrl w h v secret (pending s))), worker := Pausing,
       due := now s + 1000\<rparr>"
    by (rule onComplete_normal)
  with Busy a q show ?thesis
    by (simp add: serveNext_def sstep_def drainLoop_def)
next
  case Pausing
  with a q show ?thesis
    by (simp add: serveNext_def sstep_def drainLoop_def)
qed

lemma serveNext_events: "ev \<in> set (serveNext s) \<Longrightarrow> ev = Complete \<or> ev = Wake \<or> (\<exists>d. ev = Tick d)"
  by (cases "worker s") (auto simp: serveNext_def)

lemma serve_queue:
  "bodiesReadable w \<Longrightarrow> queueInv s \<Longrightarrow> stat s = Alive \<Longrightarrow> length (queue s) = n \<Longrightarrow>
   \<exists>evs s'. srun w h secret s evs = Some s' \<and> stat s' = Alive \<and> queue s' = []
     \<and> map snd (starts s') = arrivals s
     \<and> (\<forall>ev \<in> set evs. ev = Complete \<or> ev = Wake \<or> (\<exists>d. ev = Tick d))"
proof (induction n arbitrary: s)
  case 0
  from 0 have "srun w h secret s [] = Some s \<and> stat s = Alive \<and> queue s = []
     \<and> map snd (starts s) = arrivals s"
    by (auto simp: queueInv_def)
  then show ?case by (intro exI [of _ "[]"] exI [of _ s]) simp
next
  case (Suc n)
  from Suc.prems(4) obtain u rest where q: "queue s = u # rest" and l: "length rest = n"
    by (cases "queue s") auto
  from serve_head [OF Suc.prems(1,2,3) q, of h secret] obtain s1
    where r1: "srun w h secret s (serveNext s) = Some s1" and a1: "stat s1 = Alive"
      and q1: "queue s1 = rest" and ar: "arrivals s1 = arrivals s"
    by blast
  from queueInv_srun [OF Suc.prems(2) r1] have i1: "queueInv s1" .
  from q1 l have "length (queue s1) = n" by simp
  from Suc.IH [OF Suc.prems(1) i1 a1 this] obtain evs s'
    where r2: "srun w h secret s1 evs = Some s'" and a2: "stat s' = Alive" and q2: "queue s' = []"
      and m: "map snd (starts s') = arrivals s1"
      and e: "\<forall>ev \<in> set evs. ev = Complete \<or> ev = Wake \<or> (\<exists>d. ev = Tick d)"
    by blast
  from r1 r2 have "srun w h secret s (serveNext s @ evs) = Some s'"
    by (simp add: srun_append)
  moreover from e serveNext_events [of _ s]
  have "\<forall>ev \<in> set (serveNext s @ evs). ev = Complete \<or> ev = Wake \<or> (\<exists>d. ev = Tick d)"
    by auto
  ultimately show ?case using a2 q2 m ar by metis
qed

text \<open>
  Every task is served, where bodies can be read. From every state that a run of the
  stream mode reaches with the process alive, in a world in which every body that comes
  with an OK response can be read, the run goes on, with no further input and by the
  settling of tasks, the passing of time and the firing of timers alone, to a state in
  which every URL given to \<open>enqueue\<close> has been started, in the order of arrival.
\<close>

lemma queue_all_served:
  "bodiesReadable w \<Longrightarrow> srun w h secret initStream evs = Some s \<Longrightarrow> stat s = Alive \<Longrightarrow>
   \<exists>evs' s'. srun w h secret initStream (evs @ evs') = Some s' \<and> stat s' = Alive
     \<and> queue s' = [] \<and> map snd (starts s') = arrivals s
     \<and> (\<forall>ev \<in> set evs'. ev = Complete \<or> ev = Wake \<or> (\<exists>d. ev = Tick d))"
proof -
  assume b: "bodiesReadable w" and r: "srun w h secret initStream evs = Some s"
    and a: "stat s = Alive"
  from serve_queue [OF b queueInv_srun [OF queueInv_init r] a refl, of h secret]
  obtain evs' s' where "srun w h secret s evs' = Some s'" and "stat s' = Alive \<and> queue s' = []
     \<and> map snd (starts s') = arrivals s
     \<and> (\<forall>ev \<in> set evs'. ev = Complete \<or> ev = Wake \<or> (\<exists>d. ev = Tick d))"
    by blast
  with r show ?thesis
    by (intro exI [of _ evs'] exI [of _ s']) (simp add: srun_append)
qed

text \<open>
  A run in which a chunk brings two URLs and every fetch is rejected: the second task
  starts 1000 milliseconds after the first, when the timer of the pause fires.
\<close>

lemma processUrl_failingWorld:
  "processUrl failingWorld h u secret s =
     (Inr (), s\<lparr>calls := calls s + 2,
        trace := trace s @ [Fetch (addProtocol u), Sleep 60000, Fetch (addProtocol u),
                            Stderr (FailedToFetch u (FetchRejected ''unreachable''))]\<rparr>)"
proof -
  have f: "failure (failingWorld n) = Some (FetchRejected ''unreachable'')" for n
    by (simp add: failure_def failingWorld_def)
  from fetchWithRetry_both_fail [where w = failingWorld and s = s and u = u, OF f f]
  show ?thesis by (simp add: processUrl_def)
qed

lemma parse_ab_adjacent: "parseUrls ''[www.a.com][www.b.com]'' = [''www.a.com'', ''www.b.com'']"
  by code_simp

lemma index_ab_adjacent: "lastIndexOf CHR '']'' ''[www.a.com][www.b.com]'' = 21"
  by code_simp

lemma addProtocol_www_b: "addProtocol ''www.b.com'' = ''https://www.b.com''"
  by code_simp

lemma sampleRun_result: "srun failingWorld sampleHelpers None initStream sampleRun = Some afterRun"
  by (simp add: sampleRun_def sstep_def onData_def Let_def parse_ab_adjacent index_ab_adjacent
      schedule_def admit_def enqueue_def drain_def drainLoop_def initStream_def initIo_def
      afterRun_def onComplete_def processUrl_failingWorld addProtocol_www_a addProtocol_www_b
      sleep_def fetchCall_def)

lemma index_a_b: "lastIndexOf CHR '']'' ''[www.a.com] [www.b.com]'' = 22"
  by code_simp

lemma data_a_b:
  "onData ''[www.a.com] [www.b.com]'' initStream =
      initStream\<lparr>sbuffer := [], seen := {''www.b.com'', ''www.a.com''}, queue := [''www.b.com''],
        processing := True, worker := Busy ''www.a.com'',
        sio := \<lparr>calls = 1, trace = [Fetch ''https://www.a.com'']\<rparr>,
        arrivals := [''www.a.com'', ''www.b.com''], starts := [(0, ''www.a.com'')]\<rparr>"
  by (simp add: onData_def Let_def parse_a_b index_a_b schedule_def admit_def enqueue_def drain_def
      drainLoop_def initStream_def fetchCall_def addProtocol_www_a initIo_def)

text \<open>
  Claim C7 fails on the code: when a response with an OK status arrives and its body
  cannot be read, the task ends with an exception that leaves \<open>drain\<close>. No pause of
  1000 milliseconds follows the task, the next task is never taken from the queue, and
  the URL \<open>www.b.com\<close>, given to \<open>enqueue\<close> after \<open>www.a.com\<close>, is never served: the
  process has ended, and no timer fires any more. This is the defect that claim C3
  meets.
\<close>

theorem queue_stops_after_body_failure:
  "map_option (\<lambda>s. (arrivals s, map snd (starts s), queue s, worker s, stat s, trace (sio s)))
       (srun brokenBodyWorld sampleHelpers None initStream [Data ''[www.a.com] [www.b.com]'', Complete]) =
     Some ([''www.a.com'', ''www.b.com''], [''www.a.com''], [''www.b.com''], Idle,
           Crashed ''terminated'', [Fetch ''https://www.a.com''])
   \<and> srun brokenBodyWorld sampleHelpers None initStream
       [Data ''[www.a.com] [www.b.com]'', Complete, Tick 1000, Wake] = None"
proof -
  have 2: "map_option (\<lambda>s. (arrivals s, map snd (starts s), queue s, worker s, stat s, trace (sio s)))
       (srun brokenBodyWorld sampleHelpers None initStream [Data ''[www.a.com] [www.b.com]'', Complete]) =
     Some ([''www.a.com'', ''www.b.com''], [''www.a.com''], [''www.b.com''], Idle,
           Crashed ''terminated'', [Fetch ''https://www.a.com''])"
    by (simp add: sstep_def data_a_b [unfolded initStream_def initIo_def] initStream_def onComplete_def
        processUrl_brokenBody drainFinally_def Let_def addProtocol_www_a initIo_def)
  have 3: "srun brokenBodyWorld sampleHelpers None initStream
       [Data ''[www.a.com] [www.b.com]'', Complete, Tick 1000, Wake] = None"
    by (simp add: sstep_def data_a_b [unfolded initStream_def initIo_def] initStream_def onComplete_def
        processUrl_brokenBody drainFinally_def Let_def addProtocol_www_a initIo_def)
  from 2 3 show ?thesis by (rule conjI)
qed

end
